theory Spec2Isabelle
  imports Main "HOL-Library.Word" "HOL-Library.List_Lexorder" "HOL-Library.Multiset"
begin

section \<open>Data model of the container (zipFile.js)\<close>

text \<open>
  A Node \<open>Buffer\<close> is a sequence of bytes. A JavaScript string is a sequence of UTF-16 code
  units; \<open><\<close> on strings is the lexicographic order on code units, which is the order
  \<open>HOL-Library.List_Lexorder\<close> puts on lists.
\<close>

type_synonym byte = "8 word"
type_synonym buffer = "byte list"
type_synonym jsstring = "16 word list"

text \<open>The code units of an Isabelle string literal, to write names readably.\<close>

definition js :: "string \<Rightarrow> jsstring" where
  "js s = map (\<lambda>c. of_nat (of_char c)) s"

text \<open>
  JavaScript objects are compared by reference (\<open>indexOf\<close>) and shared between
  \<open>entryList\<close> and \<open>entryTable\<close>, so entries live in a store and the list and the table
  hold references.
\<close>

type_synonym ref = nat

text \<open>
  Modelled from the spec: the fields of an EntryHeader (headers.js is not part of the
  sources); \<open>usize\<close> is the uncompressed size, \<open>how\<close> the compression method.
\<close>

record entry_header =
  made :: nat
  version :: nat
  flags :: nat
  how :: nat
  mtime :: nat
  crc :: nat
  compressedSize :: nat
  usize :: nat
  fileNameLength :: nat
  extraLength :: nat
  commentLength :: nat
  diskNumStart :: nat
  inAttr :: nat
  attr :: nat
  offset :: nat

text \<open>
  The properties of a ZipEntry that the container reads and writes (zipEntry.js is not
  part of the sources): the container sees an entry as this bag of properties.
\<close>

record zip_entry =
  header :: entry_header
  entryName :: jsstring
  rawEntryName :: buffer
  extra :: buffer
  entryComment :: buffer
  isDirectory :: bool

text \<open>Modelled from the spec: the fields of the MainHeader (the end record).\<close>

record main_header =
  diskEntries :: nat
  totalEntries :: nat
  mainSize :: nat
  mainOffset :: nat
  mainCommentLength :: nat

text \<open>
  The closure variables of the factory function: \<open>entryList\<close>, \<open>entryTable\<close>,
  \<open>_comment\<close>, \<open>inBuffer\<close>, \<open>mainHeader\<close>, and the store of entry objects.
  \<^item> \<open>entryTable\<close> is a plain object used as a map from names to entries. The model is
    a map on the names that are not also property names of \<open>Object.prototype\<close>
    (\<open>constructor\<close>, \<open>toString\<close>, \<open>__proto__\<close> and the like): at those the object
    answers with what it inherits, and they are left out here.
  \<^item> \<open>_comment\<close> is a Buffer, as the factory function and \<open>readMainHeader\<close> leave it.
  \<^item> Every entry is created with a reference to \<open>inBuffer\<close>; the buffer is held once,
    in the container.
\<close>

record container =
  heap :: "ref \<Rightarrow> zip_entry"
  entryList :: "ref list"
  entryTable :: "jsstring \<rightharpoonup> ref"
  zipComment :: buffer
  inBuffer :: buffer
  mainHeader :: main_header

text \<open>
  What the container takes from its platform and from its entries, as parameters: every
  property below holds for whatever these functions compute.
  \<^item> \<open>toStr\<close>: \<open>Buffer.prototype.toString()\<close>, the UTF-8 decoding of a buffer;
  \<^item> \<open>utf8\<close>: the bytes that \<open>Buffer.alloc(n, s)\<close> and \<open>buf.fill(s, off)\<close> repeat for
    a string \<open>s\<close>, its UTF-8 encoding;
  \<^item> \<open>toLowerCase\<close>: \<open>String.prototype.toLowerCase()\<close>;
  \<^item> \<open>getCompressedData\<close>: the entry's synchronous compression capability, returning
    the payload and the entry as the call leaves it (it may set sizes and CRC);
  \<^item> \<open>getCompressedDataAsync\<close>: the asynchronous capability, as the payload it hands to
    its completion callback and the entry as it leaves it. The model lets every call
    complete, once.
\<close>

record platform =
  toStr :: "buffer \<Rightarrow> jsstring"
  utf8 :: "jsstring \<Rightarrow> buffer"
  toLowerCase :: "jsstring \<Rightarrow> jsstring"
  getCompressedData :: "zip_entry \<Rightarrow> buffer \<times> zip_entry"
  getCompressedDataAsync :: "zip_entry \<Rightarrow> buffer \<times> zip_entry"

text \<open>
  What the code throws: \<open>Errors.INVALID_FORMAT\<close>, the RangeError of a read outside a
  buffer, and the TypeError of the language itself.
\<close>

datatype error = INVALID_FORMAT | RANGE_ERROR | TYPE_ERROR

section \<open>Constants (util/constants.js)\<close>

definition LOCHDR :: nat where "LOCHDR = 30"
definition LOCSIG :: nat where "LOCSIG = 0x04034b50"
definition CENHDR :: nat where "CENHDR = 46"
definition CENSIG :: nat where "CENSIG = 0x02014b50"
definition CENVEM :: nat where "CENVEM = 4"
definition CENVER :: nat where "CENVER = 6"
definition CENFLG :: nat where "CENFLG = 8"
definition CENHOW :: nat where "CENHOW = 10"
definition CENTIM :: nat where "CENTIM = 12"
definition CENCRC :: nat where "CENCRC = 16"
definition CENSIZ :: nat where "CENSIZ = 20"
definition CENLEN :: nat where "CENLEN = 24"
definition CENNAM :: nat where "CENNAM = 28"
definition CENEXT :: nat where "CENEXT = 30"
definition CENCOM :: nat where "CENCOM = 32"
definition CENDSK :: nat where "CENDSK = 34"
definition CENATT :: nat where "CENATT = 36"
definition CENATX :: nat where "CENATX = 38"
definition CENOFF :: nat where "CENOFF = 42"
definition ENDHDR :: nat where "ENDHDR = 22"
definition ENDSIG :: nat where "ENDSIG = 0x06054b50"
definition ENDSUB :: nat where "ENDSUB = 8"
definition ENDTOT :: nat where "ENDTOT = 10"
definition ENDSIZ :: nat where "ENDSIZ = 12"
definition ENDOFF :: nat where "ENDOFF = 16"
definition ENDCOM :: nat where "ENDCOM = 20"

section \<open>Buffer primitives\<close>

text \<open>
  \<open>buf.slice(start, end)\<close> for non-negative indices: both are clamped to the length, and
  an \<open>end\<close> before \<open>start\<close> gives the empty buffer.
\<close>

definition buf_slice :: "buffer \<Rightarrow> nat \<Rightarrow> nat \<Rightarrow> buffer" where
  "buf_slice buf start end' = take (end' - start) (drop start buf)"

text \<open>\<open>buf[i]\<close>: \<open>undefined\<close> (here \<open>None\<close>) outside the buffer.\<close>

definition byteAt :: "buffer \<Rightarrow> int \<Rightarrow> byte option" where
  "byteAt buf i = (if 0 \<le> i \<and> i < int (length buf) then Some (buf ! nat i) else None)"

text \<open>\<open>readUInt16LE\<close> and \<open>readUInt32LE\<close>: a RangeError (\<open>None\<close>) outside the buffer.\<close>

definition readUInt16LE :: "buffer \<Rightarrow> nat \<Rightarrow> nat option" where
  "readUInt16LE buf i =
     (if i + 2 \<le> length buf then Some (unat (buf ! i) + 256 * unat (buf ! (i + 1))) else None)"

definition readUInt32LE :: "buffer \<Rightarrow> nat \<Rightarrow> nat option" where
  "readUInt32LE buf i =
     (if i + 4 \<le> length buf
      then Some (unat (buf ! i) + 256 * unat (buf ! (i + 1)) + 65536 * unat (buf ! (i + 2))
                 + 16777216 * unat (buf ! (i + 3)))
      else None)"

text \<open>
  The bytes \<open>writeUInt16LE\<close> and \<open>writeUInt32LE\<close> store, low byte first. A value beyond
  the field's width is reduced modulo the width here.
\<close>

definition le16 :: "nat \<Rightarrow> buffer" where
  "le16 v = [of_nat v, of_nat (v div 256)]"

definition le32 :: "nat \<Rightarrow> buffer" where
  "le32 v = [of_nat v, of_nat (v div 256), of_nat (v div 65536), of_nat (v div 16777216)]"

text \<open>
  \<open>src.copy(target, targetStart)\<close>: as many bytes of \<open>src\<close> as fit into \<open>target\<close> from
  \<open>targetStart\<close> on; the result is the target afterwards.
\<close>

definition bufCopy :: "buffer \<Rightarrow> buffer \<Rightarrow> nat \<Rightarrow> buffer" where
  "bufCopy src target targetStart =
     (if targetStart \<ge> length target then target
      else take targetStart target @ take (length target - targetStart) src
           @ drop (targetStart + length src) target)"

text \<open>
  \<open>Buffer.alloc(n, s)\<close> for a string \<open>s\<close> with encoding \<open>pat\<close>: \<open>n\<close> bytes repeating
  \<open>pat\<close>, cut where the buffer ends; zeros when the string is empty.
\<close>

definition allocFill :: "nat \<Rightarrow> buffer \<Rightarrow> buffer" where
  "allocFill n pat = (if pat = [] then replicate n 0 else take n (concat (replicate n pat)))"

text \<open>\<open>buf.fill(s, off)\<close>: the bytes from \<open>off\<close> to the end are filled in the same way.\<close>

definition bufFill :: "buffer \<Rightarrow> buffer \<Rightarrow> nat \<Rightarrow> buffer" where
  "bufFill buf pat off = take off buf @ allocFill (length buf - off) pat"

section \<open>Array primitives\<close>

text \<open>\<open>Array.prototype.indexOf\<close>: the first index holding the value, or \<open>-1\<close>.\<close>

fun indexOf :: "'a list \<Rightarrow> 'a \<Rightarrow> int" where
  "indexOf [] x = -1"
| "indexOf (y # ys) x =
     (if y = x then 0 else (let i = indexOf ys x in if i < 0 then -1 else i + 1))"

text \<open>
  \<open>entryList.indexOf(entry)\<close> where \<open>entry\<close> is the result of a table lookup: the list
  holds entry objects only, so \<open>undefined\<close> is found nowhere.
\<close>

definition indexOfEntry :: "ref list \<Rightarrow> ref option \<Rightarrow> int" where
  "indexOfEntry xs entry = (case entry of None \<Rightarrow> -1 | Some r \<Rightarrow> indexOf xs r)"

text \<open>
  \<open>Array.prototype.splice(start, 1)\<close>: a negative \<open>start\<close> counts from the end
  (\<open>max (len + start) 0\<close>), a \<open>start\<close> beyond the end is the end; one element is removed
  when there is one at that position.
\<close>

definition splice1 :: "int \<Rightarrow> 'a list \<Rightarrow> 'a list" where
  "splice1 start xs =
     (let len = int (length xs);
          s = (if start < 0 then max (len + start) 0 else min start len)
      in take (nat s) xs @ drop (nat s + 1) xs)"

text \<open>\<open>forEach\<close> with a callback that may fail (the failure propagates).\<close>

fun forEachM :: "('a \<Rightarrow> 's \<Rightarrow> 's option) \<Rightarrow> 'a list \<Rightarrow> 's \<Rightarrow> 's option" where
  "forEachM f [] s = Some s"
| "forEachM f (x # xs) s = (case f x s of None \<Rightarrow> None | Some s' \<Rightarrow> forEachM f xs s')"

section \<open>Entry table operations\<close>

definition setEntry :: "ref \<Rightarrow> container \<Rightarrow> container" where
  "setEntry entry c =
     (let l = entryList c @ [entry];
          t = (entryTable c)(entryName (heap c entry) \<mapsto> entry)
      in c\<lparr>entryList := l, entryTable := t,
            mainHeader := (mainHeader c)\<lparr>totalEntries := length l\<rparr>\<rparr>)"

definition getEntryChildren :: "container \<Rightarrow> ref \<Rightarrow> ref list" where
  "getEntryChildren c entry =
     (if isDirectory (heap c entry) then
        (let name = entryName (heap c entry); len = length name
         in filter (\<lambda>zipEntry. take len (entryName (heap c zipEntry)) = name) (entryList c))
      else [])"

text \<open>
  \<open>deleteEntry\<close> calls itself for the children of a directory. The first argument bounds
  the depth of the call stack: at depth 0 the call fails (\<open>None\<close>), as a JavaScript
  engine fails when its stack is exhausted.
\<close>

fun deleteEntry :: "nat \<Rightarrow> jsstring \<Rightarrow> container \<Rightarrow> container option" where
  "deleteEntry 0 name c = None"
| "deleteEntry (Suc k) name c =
     (let entry = entryTable c name in
      case (case entry of
              None \<Rightarrow> Some c
            | Some e \<Rightarrow>
                if isDirectory (heap c e) then
                  forEachM (\<lambda>child c'.
                      if entryName (heap c' child) \<noteq> name
                      then deleteEntry k (entryName (heap c' child)) c'
                      else Some c')
                    (getEntryChildren c e) c
                else Some c) of
        None \<Rightarrow> None
      | Some c1 \<Rightarrow>
          (let l = splice1 (indexOfEntry (entryList c1) entry) (entryList c1)
           in Some (c1\<lparr>entryList := l,
                       entryTable := (entryTable c1)(name := None),
                       mainHeader := (mainHeader c1)\<lparr>totalEntries := length l\<rparr>\<rparr>)))"

section \<open>Header codec\<close>

text \<open>
  Modelled from the spec: headers.js is not part of the sources. The spec gives the
  records as fixed layouts with little-endian fields (Local File Header 30 bytes, Central
  Directory Header 46 bytes, End Of Central Directory 22 bytes plus the comment), and
  util/constants.js gives the offset of every field. Decoding is pure; a read outside the
  block it is given fails as an out-of-range access.
\<close>

definition mainHeaderSize :: "main_header \<Rightarrow> nat" where
  "mainHeaderSize mh = ENDHDR + mainCommentLength mh"

definition mainToBinary :: "main_header \<Rightarrow> buffer" where
  "mainToBinary mh =
     le32 ENDSIG @ [0, 0, 0, 0]
     @ le16 (diskEntries mh) @ le16 (totalEntries mh)
     @ le32 (mainSize mh) @ le32 (mainOffset mh)
     @ le16 (mainCommentLength mh)
     @ replicate (mainCommentLength mh) 0"

definition mainLoadFromBinary :: "buffer \<Rightarrow> main_header option" where
  "mainLoadFromBinary data =
     (case (readUInt16LE data ENDSUB, readUInt16LE data ENDTOT, readUInt32LE data ENDSIZ,
            readUInt32LE data ENDOFF, readUInt16LE data ENDCOM) of
        (Some sub, Some tot, Some siz, Some off, Some com) \<Rightarrow>
          Some \<lparr>diskEntries = sub, totalEntries = tot, mainSize = siz, mainOffset = off,
                mainCommentLength = com\<rparr>
      | _ \<Rightarrow> None)"

definition entryHeaderSize :: "entry_header \<Rightarrow> nat" where
  "entryHeaderSize h = CENHDR + fileNameLength h + extraLength h + commentLength h"

definition dataHeaderToBinary :: "entry_header \<Rightarrow> buffer" where
  "dataHeaderToBinary h =
     le32 LOCSIG @ le16 (version h) @ le16 (flags h) @ le16 (how h) @ le32 (mtime h)
     @ le32 (crc h) @ le32 (compressedSize h) @ le32 (usize h)
     @ le16 (fileNameLength h) @ le16 (extraLength h)"

definition entryHeaderToBinary :: "entry_header \<Rightarrow> buffer" where
  "entryHeaderToBinary h =
     le32 CENSIG @ le16 (made h) @ le16 (version h) @ le16 (flags h) @ le16 (how h)
     @ le32 (mtime h) @ le32 (crc h) @ le32 (compressedSize h) @ le32 (usize h)
     @ le16 (fileNameLength h) @ le16 (extraLength h) @ le16 (commentLength h)
     @ le16 (diskNumStart h) @ le16 (inAttr h) @ le32 (attr h) @ le32 (offset h)"

definition entryLoadFromBinary :: "buffer \<Rightarrow> entry_header option" where
  "entryLoadFromBinary data =
     (case (readUInt16LE data CENVEM, readUInt16LE data CENVER, readUInt16LE data CENFLG,
            readUInt16LE data CENHOW, readUInt32LE data CENTIM, readUInt32LE data CENCRC,
            readUInt32LE data CENSIZ, readUInt32LE data CENLEN) of
        (Some vem, Some ver, Some flg, Some hw, Some tim, Some cr, Some siz, Some len) \<Rightarrow>
          (case (readUInt16LE data CENNAM, readUInt16LE data CENEXT, readUInt16LE data CENCOM,
                 readUInt16LE data CENDSK, readUInt16LE data CENATT, readUInt32LE data CENATX,
                 readUInt32LE data CENOFF) of
             (Some nam, Some ext, Some com, Some dsk, Some att, Some atx, Some off) \<Rightarrow>
               Some \<lparr>made = vem, version = ver, flags = flg, how = hw, mtime = tim, crc = cr,
                     compressedSize = siz, usize = len, fileNameLength = nam,
                     extraLength = ext, commentLength = com, diskNumStart = dsk,
                     inAttr = att, attr = atx, offset = off\<rparr>
           | _ \<Rightarrow> None)
      | _ \<Rightarrow> None)"

text \<open>
  Modelled from the spec: \<open>packHeader\<close> of zipEntry.js, the Central Directory Header of an
  entry: the fixed block, then the raw name, the extra field and the comment.
\<close>

definition packHeader :: "zip_entry \<Rightarrow> buffer" where
  "packHeader e = entryHeaderToBinary (header e) @ rawEntryName e @ extra e @ entryComment e"

text \<open>
  Modelled from the spec: a new ZipEntry has no name, no extra field and no comment, and
  \<open>isDirectory\<close> is derived from a trailing path separator of the name.
\<close>

definition nameIsDirectory :: "jsstring \<Rightarrow> bool" where
  "nameIsDirectory name = (name \<noteq> [] \<and> last name = 0x2F)"

definition emptyHeader :: entry_header where
  "emptyHeader = \<lparr>made = 0, version = 0, flags = 0, how = 0, mtime = 0, crc = 0,
     compressedSize = 0, usize = 0, fileNameLength = 0, extraLength = 0, commentLength = 0,
     diskNumStart = 0, inAttr = 0, attr = 0, offset = 0\<rparr>"

definition newZipEntry :: zip_entry where
  "newZipEntry = \<lparr>header = emptyHeader, entryName = [], rawEntryName = [], extra = [],
     entryComment = [], isDirectory = False\<rparr>"

section \<open>Opening an archive: readMainHeader and readEntries\<close>

text \<open>The body of the loop of \<open>readEntries\<close>: the entry read at \<open>index\<close>.\<close>

definition readEntry :: "platform \<Rightarrow> buffer \<Rightarrow> nat \<Rightarrow> error + zip_entry" where
  "readEntry P buf index =
     (let tmp = index in
      case entryLoadFromBinary (buf_slice buf tmp (tmp + CENHDR)) of
        None \<Rightarrow> Inl RANGE_ERROR
      | Some h \<Rightarrow>
          (let tmp1 = tmp + CENHDR;
               raw = buf_slice buf tmp1 (tmp1 + fileNameLength h);
               tmp2 = tmp1 + fileNameLength h;
               ex = (if extraLength h \<noteq> 0 then buf_slice buf tmp2 (tmp2 + extraLength h)
                     else extra newZipEntry);
               tmp3 = (if extraLength h \<noteq> 0 then tmp2 + extraLength h else tmp2);
               com = (if commentLength h \<noteq> 0 then buf_slice buf tmp3 (tmp3 + commentLength h)
                      else entryComment newZipEntry)
           in Inr \<lparr>header = h, entryName = toStr P raw, rawEntryName = raw, extra = ex,
                   entryComment = com, isDirectory = nameIsDirectory (toStr P raw)\<rparr>))"

text \<open>The loop, \<open>n\<close> entries from \<open>index\<close> on; the first failure ends it.\<close>

fun readEntriesLoop :: "platform \<Rightarrow> buffer \<Rightarrow> nat \<Rightarrow> nat \<Rightarrow> error + zip_entry list" where
  "readEntriesLoop P buf 0 index = Inr []"
| "readEntriesLoop P buf (Suc n) index =
     (case readEntry P buf index of
        Inl e \<Rightarrow> Inl e
      | Inr entry \<Rightarrow>
          (case readEntriesLoop P buf n (index + entryHeaderSize (header entry)) of
             Inl e \<Rightarrow> Inl e
           | Inr es \<Rightarrow> Inr (entry # es)))"

text \<open>
  \<open>readEntries\<close>: the \<open>i\<close>-th entry read is the object at reference \<open>i\<close>; the list holds
  the references in order, and the table binds every name to the last entry read with
  that name.
\<close>

definition readEntries :: "platform \<Rightarrow> container \<Rightarrow> error + container" where
  "readEntries P c =
     (case readEntriesLoop P (inBuffer c) (diskEntries (mainHeader c))
             (mainOffset (mainHeader c)) of
        Inl e \<Rightarrow> Inl e
      | Inr es \<Rightarrow>
          Inr (c\<lparr>heap := (\<lambda>r. if r < length es then es ! r else newZipEntry),
                 entryList := [0..<length es],
                 entryTable := fold (\<lambda>r t. t(entryName (es ! r) \<mapsto> r)) [0..<length es]
                                 Map.empty\<rparr>))"

text \<open>
  The backward scan of \<open>readMainHeader\<close> from \<open>i\<close> down to \<open>n\<close>: the offset found, or
  \<open>-1\<close>.
\<close>

function scanEnd :: "buffer \<Rightarrow> int \<Rightarrow> int \<Rightarrow> error + int" where
  "scanEnd buf n i =
     (if i \<ge> n then
        (if byteAt buf i \<noteq> Some 0x50 then scanEnd buf n (i - 1)
         else (case readUInt32LE buf (nat i) of
                 None \<Rightarrow> Inl RANGE_ERROR
               | Some v \<Rightarrow> if v = ENDSIG then Inr i else scanEnd buf n (i - 1)))
      else Inr (-1))"
  by pat_completeness auto
termination
  by (relation "measure (\<lambda>(buf, n, i). nat (i - n + 1))") auto

definition findEndOffset :: "buffer \<Rightarrow> error + int" where
  "findEndOffset buf =
     (let i = int (length buf) - int ENDHDR;
          n = max 0 (i - 0xFFFF)
      in scanEnd buf n i)"

text \<open>
  What \<open>readMainHeader\<close> does once the end record is located at \<open>endOffset\<close>: decode it,
  take the rest of the buffer as the comment, read the entries.
\<close>

definition loadAt :: "platform \<Rightarrow> buffer \<Rightarrow> nat \<Rightarrow> error + container" where
  "loadAt P input endOffset =
     (case mainLoadFromBinary (buf_slice input endOffset (endOffset + ENDHDR)) of
        None \<Rightarrow> Inl RANGE_ERROR
      | Some mh \<Rightarrow>
          readEntries P
            \<lparr>heap = (\<lambda>r. newZipEntry), entryList = [], entryTable = Map.empty,
             zipComment = (if mainCommentLength mh \<noteq> 0
                           then drop (endOffset + ENDHDR) input else []),
             inBuffer = input, mainHeader = mh\<rparr>)"

text \<open>
  The bitwise operators work on 32 bits: \<open>~x\<close> is the complement of \<open>ToInt32(x)\<close>, the
  integer from \<open>-2^31\<close> to \<open>2^31 - 1\<close> that is congruent to \<open>x\<close> modulo \<open>2^32\<close>.
\<close>

definition toInt32 :: "int \<Rightarrow> int" where
  "toInt32 x = (x + 2147483648) mod 4294967296 - 2147483648"

definition bitNot :: "int \<Rightarrow> int" where
  "bitNot x = - toInt32 x - 1"

text \<open>
  \<open>readMainHeader\<close>: the scan, the test \<open>if (!~endOffset)\<close>, which holds when
  \<open>~endOffset\<close> is \<open>0\<close>, and the rest.
\<close>

definition readMainHeader :: "platform \<Rightarrow> buffer \<Rightarrow> error + container" where
  "readMainHeader P input =
     (case findEndOffset input of
        Inl e \<Rightarrow> Inl e
      | Inr endOffset \<Rightarrow>
          if bitNot endOffset = 0 then Inl INVALID_FORMAT
          else loadAt P input (nat endOffset))"

text \<open>The factory function: opening a buffer is \<open>readMainHeader\<close>.\<close>

definition zipFile :: "platform \<Rightarrow> buffer \<Rightarrow> error + container" where
  "zipFile P input = readMainHeader P input"

section \<open>Serialization\<close>

text \<open>
  \<open>Array.prototype.sort(compare)\<close>, as the stable sort it is since ES2019: an element goes
  before the first sorted element that the comparator does not put before it.
\<close>

fun insertBy :: "('a \<Rightarrow> 'a \<Rightarrow> int) \<Rightarrow> 'a \<Rightarrow> 'a list \<Rightarrow> 'a list" where
  "insertBy cmp x [] = [x]"
| "insertBy cmp x (y # ys) = (if cmp x y \<le> 0 then x # y # ys else y # insertBy cmp x ys)"

definition arraySort :: "('a \<Rightarrow> 'a \<Rightarrow> int) \<Rightarrow> 'a list \<Rightarrow> 'a list" where
  "arraySort cmp xs = foldr (insertBy cmp) xs []"

text \<open>The comparator of \<open>compressToBuffer\<close>.\<close>

definition compareAscending :: "platform \<Rightarrow> (ref \<Rightarrow> zip_entry) \<Rightarrow> ref \<Rightarrow> ref \<Rightarrow> int" where
  "compareAscending P h a b =
     (let nameA = toLowerCase P (entryName (h a));
          nameB = toLowerCase P (entryName (h b))
      in if nameA < nameB then -1 else if nameA > nameB then 1 else 0)"

text \<open>The comparator of \<open>toAsyncBuffer\<close>.\<close>

definition compareDescending :: "platform \<Rightarrow> (ref \<Rightarrow> zip_entry) \<Rightarrow> ref \<Rightarrow> ref \<Rightarrow> int" where
  "compareDescending P h a b =
     (let nameA = toLowerCase P (entryName (h a));
          nameB = toLowerCase P (entryName (h b))
      in if nameA > nameB then -1 else if nameA < nameB then 1 else 0)"

text \<open>The local variables of a serialization.\<close>

record locals =
  totalSize :: nat
  dataBlock :: "buffer list"
  entryHeaders :: "buffer list"
  dindex :: nat

definition initLocals :: locals where
  "initLocals = \<lparr>totalSize = 0, dataBlock = [], entryHeaders = [], dindex = 0\<rparr>"

text \<open>
  What both paths do with an entry once its payload is there and its post-header block is
  built: set the offset, encode the local header, push the three blocks, pack the
  central header, add up the sizes.
\<close>

definition pushEntry :: "ref \<Rightarrow> buffer \<Rightarrow> buffer \<Rightarrow> locals \<times> container \<Rightarrow> locals \<times> container" where
  "pushEntry entry postHeader compressedData lc =
     (let v = fst lc; c = snd lc;
          e = heap c entry;
          e1 = e\<lparr>header := (header e)\<lparr>offset := dindex v\<rparr>\<rparr>;
          dataHeader = dataHeaderToBinary (header e1);
          dataLength = length dataHeader + length postHeader + length compressedData;
          entryHeader = packHeader e1
      in (v\<lparr>dindex := dindex v + dataLength,
            dataBlock := dataBlock v @ [dataHeader, postHeader, compressedData],
            entryHeaders := entryHeaders v @ [entryHeader],
            totalSize := totalSize v + (dataLength + length entryHeader)\<rparr>,
          c\<lparr>heap := (heap c)(entry := e1),
            mainHeader := (mainHeader c)
              \<lparr>mainSize := mainSize (mainHeader c) + length entryHeader\<rparr>\<rparr>))"

text \<open>The post-header block of \<open>compressToBuffer\<close>.\<close>

definition syncPostHeader :: "platform \<Rightarrow> zip_entry \<Rightarrow> buffer" where
  "syncPostHeader P e =
     (let entryNameLen = length (rawEntryName e);
          ex = toStr P (extra e);
          postHeader = replicate (entryNameLen + length ex) 0;
          postHeader1 = bufCopy (rawEntryName e) postHeader 0
      in bufFill postHeader1 (utf8 P ex) entryNameLen)"

text \<open>The body of the \<open>forEach\<close> of \<open>compressToBuffer\<close>.\<close>

definition syncEntry :: "platform \<Rightarrow> ref \<Rightarrow> locals \<times> container \<Rightarrow> locals \<times> container" where
  "syncEntry P entry lc =
     (let v = fst lc; c = snd lc;
          r = getCompressedData P (heap c entry);
          compressedData = fst r;
          c1 = c\<lparr>heap := (heap c)(entry := snd r)\<rparr>
      in pushEntry entry (syncPostHeader P (heap c1 entry)) compressedData (v, c1))"

text \<open>
  The end of both paths: the size of the archive, the offset of the central directory,
  the output buffer allocated once, the blocks copied into it one after the other, then
  the end record with the comment copied into it at \<open>ENDHDR\<close>.
\<close>

definition copyAll :: "buffer list \<Rightarrow> buffer \<times> nat \<Rightarrow> buffer \<times> nat" where
  "copyAll blocks od =
     fold (\<lambda>content od'. (bufCopy content (fst od') (snd od'), snd od' + length content))
       blocks od"

definition finalize :: "locals \<times> container \<Rightarrow> buffer \<times> container" where
  "finalize lc =
     (let v = fst lc; c = snd lc;
          totalSize1 = totalSize v + mainHeaderSize (mainHeader c);
          c1 = c\<lparr>mainHeader := (mainHeader c)\<lparr>mainOffset := dindex v\<rparr>\<rparr>;
          outBuffer = replicate totalSize1 0;
          od1 = copyAll (dataBlock v) (outBuffer, 0);
          od2 = copyAll (entryHeaders v) od1;
          mh = bufCopy (zipComment c1) (mainToBinary (mainHeader c1)) ENDHDR
      in (bufCopy mh (fst od2) (snd od2), c1))"

definition compressToBuffer :: "platform \<Rightarrow> container \<Rightarrow> buffer \<times> container" where
  "compressToBuffer P c =
     (let c1 = (if length (entryList c) > 1
                then c\<lparr>entryList := arraySort (compareAscending P (heap c)) (entryList c)\<rparr>
                else c);
          c2 = c1\<lparr>mainHeader := (mainHeader c1)\<lparr>mainSize := 0, mainOffset := 0\<rparr>\<rparr>
      in finalize (fold (syncEntry P) (entryList c2) (initLocals, c2)))"

text \<open>
  The callbacks that \<open>toAsyncBuffer\<close> invokes, in the order of their invocation
  (\<open>onFail\<close> is invoked nowhere).
\<close>

datatype callback = ItemStart jsstring | ItemEnd jsstring | Success buffer

text \<open>
  What the inner function \<open>compress\<close> of \<open>toAsyncBuffer\<close> does with the entry it has
  popped: the display name, \<open>onItemStart\<close>, the asynchronous capability and, in its
  completion callback, \<open>onItemEnd\<close>, the post-header block from the display name, and the
  same steps as in \<open>compressToBuffer\<close>.
\<close>

definition asyncEntry :: "platform \<Rightarrow> ref \<Rightarrow> callback list \<times> locals \<times> container
    \<Rightarrow> callback list \<times> locals \<times> container" where
  "asyncEntry P entry s =
     (let evs = fst s; v = fst (snd s); c = snd (snd s);
          name = entryName (heap c entry) @ toStr P (extra (heap c entry));
          evs1 = evs @ [ItemStart name];
          r = getCompressedDataAsync P (heap c entry);
          compressedData = fst r;
          c1 = c\<lparr>heap := (heap c)(entry := snd r)\<rparr>;
          evs2 = evs1 @ [ItemEnd name];
          postHeader = allocFill (length name) (utf8 P name)
      in (evs2, pushEntry entry postHeader compressedData (v, c1)))"

text \<open>
  \<open>arguments.callee\<close>, as \<open>compress\<close> reads it. zipFile.js is a module (it has
  \<open>import\<close> and \<open>export\<close> declarations), and the code of a module is strict: there the
  property \<open>callee\<close> of an arguments object is an accessor that throws a TypeError when
  it is read.
\<close>

definition argumentsCallee :: "error + unit" where
  "argumentsCallee = Inl TYPE_ERROR"

text \<open>
  The inner function \<open>compress\<close>, statement by statement. Its first statement is
  \<open>var self = arguments.callee\<close>; the TypeError of that read ends the call, with the
  callbacks invoked, the local variables and the container as they are then. After it
  come the test of the length, \<open>pop\<close> on the parameter, which is the array \<open>entryList\<close>
  of the container itself, the entry, the call of \<open>self\<close> for the rest of the list and,
  after the entry that leaves the list empty, the output buffer handed to \<open>onSuccess\<close>.
  The result is the exception, if one was thrown, and the state.
\<close>

function compress :: "platform \<Rightarrow> callback list \<times> locals \<times> container
    \<Rightarrow> error option \<times> callback list \<times> locals \<times> container" where
  "compress P (evs, v, c) =
     (case argumentsCallee of
        Inl e \<Rightarrow> (Some e, evs, v, c)
      | Inr self \<Rightarrow>
          (if entryList c \<noteq> [] then
             (let entry = last (entryList c);
                  c1 = c\<lparr>entryList := butlast (entryList c)\<rparr>;
                  s = asyncEntry P entry (evs, v, c1)
              in if entryList (snd (snd s)) \<noteq> [] then compress P s
                 else (let oc = finalize (snd s)
                       in (None, fst s @ [Success (fst oc)], fst (snd s), snd oc)))
           else (None, evs, v, c)))"
  by pat_completeness auto
termination
  by (relation "measure (\<lambda>(P, evs, v, c). length (entryList c))")
     (auto simp: asyncEntry_def pushEntry_def Let_def)

declare compress.simps [simp del]

text \<open>
  \<open>toAsyncBuffer\<close>: the sort, the local variables, \<open>mainHeader.size\<close> and
  \<open>mainHeader.offset\<close> reset, then \<open>compress(entryList)\<close>. What it throws leaves
  \<open>toAsyncBuffer\<close> too. The result is the callbacks invoked, in order, the exception, if
  one was thrown, and the container.
\<close>

definition toAsyncBuffer :: "platform \<Rightarrow> container
    \<Rightarrow> callback list \<times> error option \<times> container" where
  "toAsyncBuffer P c =
     (let c1 = (if length (entryList c) > 1
                then c\<lparr>entryList := arraySort (compareDescending P (heap c)) (entryList c)\<rparr>
                else c);
          c2 = c1\<lparr>mainHeader := (mainHeader c1)\<lparr>mainSize := 0, mainOffset := 0\<rparr>\<rparr>;
          r = compress P ([], initLocals, c2)
      in (fst (snd r), fst r, snd (snd (snd r))))"

section \<open>The claims' own notions\<close>

text \<open>
  The End-Of-Central-Directory signature \<open>0x06054b50\<close>, little-endian, occurs at offset
  \<open>i\<close> of a buffer.
\<close>

definition sigAt :: "buffer \<Rightarrow> nat \<Rightarrow> bool" where
  "sigAt buf i = (take 4 (drop i buf) = [0x50, 0x4B, 0x05, 0x06])"

text \<open>
  The offsets from \<open>max(0, L - ENDHDR - 0xFFFF)\<close> to \<open>L - ENDHDR\<close> of a buffer of length
  \<open>L\<close>, in ascending order (none when \<open>L < ENDHDR\<close>), and those among them where the
  signature occurs.
\<close>

definition window :: "buffer \<Rightarrow> nat list" where
  "window buf =
     [nat (max 0 (int (length buf) - int ENDHDR - 0xFFFF)) ..<
      nat (int (length buf) - int ENDHDR + 1)]"

definition sigOffsets :: "buffer \<Rightarrow> nat list" where
  "sigOffsets buf = filter (sigAt buf) (window buf)"

text \<open>
  The blocks of an archive, as the claims describe its layout: for the entries in the
  order of their processing, with the data offset \<open>d\<close> running, the local header, the
  post-header block, the compressed payload and the packed central-directory header of
  each entry. \<open>cap\<close> is the compression capability used and \<open>post\<close> gives the
  post-header block, from the entry before and after the capability ran.
\<close>

type_synonym blocks = "buffer \<times> buffer \<times> buffer \<times> buffer"

fun entryBlocks :: "(zip_entry \<Rightarrow> buffer \<times> zip_entry) \<Rightarrow> (zip_entry \<Rightarrow> zip_entry \<Rightarrow> buffer)
    \<Rightarrow> (ref \<Rightarrow> zip_entry) \<Rightarrow> nat \<Rightarrow> ref list \<Rightarrow> blocks list" where
  "entryBlocks cap post h d [] = []"
| "entryBlocks cap post h d (r # rs) =
     (let e = h r;
          compressedData = fst (cap e);
          e' = snd (cap e);
          e1 = e'\<lparr>header := (header e')\<lparr>offset := d\<rparr>\<rparr>;
          dataHeader = dataHeaderToBinary (header e1);
          postHeader = post e e'
      in (dataHeader, postHeader, compressedData, packHeader e1)
         # entryBlocks cap post (h(r := e1))
             (d + (length dataHeader + length postHeader + length compressedData)) rs)"

text \<open>
  The post-header block of an entry: the bytes of its raw name, then the text of its
  extra field, that is the UTF-8 encoding of the decoded extra field, repeated or cut
  to as many bytes as the text has code units (for 7-bit text, the text itself).
\<close>

definition postHeaderBytes :: "platform \<Rightarrow> zip_entry \<Rightarrow> buffer" where
  "postHeaderBytes P e =
     rawEntryName e @ allocFill (length (toStr P (extra e))) (utf8 P (toStr P (extra e)))"

text \<open>
  The blocks of the archive that \<open>compressToBuffer\<close> is to build from the entries \<open>rs\<close>:
  the payload from the synchronous capability, the data offset from \<open>0\<close>.
\<close>

definition syncBlocks :: "platform \<Rightarrow> (ref \<Rightarrow> zip_entry) \<Rightarrow> ref list \<Rightarrow> blocks list" where
  "syncBlocks P h rs = entryBlocks (getCompressedData P) (\<lambda>e e'. postHeaderBytes P e') h 0 rs"

text \<open>
  The data section: all \<open>[local header][post header][compressed data]\<close> blocks in a row.
  The central directory: all central-directory headers in a row.
\<close>

definition dataSection :: "blocks list \<Rightarrow> buffer" where
  "dataSection bs = concat (map (\<lambda>(dh, ph, cd, eh). dh @ ph @ cd) bs)"

definition centralDirectory :: "blocks list \<Rightarrow> buffer" where
  "centralDirectory bs = concat (map (\<lambda>(dh, ph, cd, eh). eh) bs)"

text \<open>
  The end-record region: the encoded end record, of \<open>ENDHDR\<close> bytes plus the comment
  length, with the archive comment copied into it at offset \<open>ENDHDR\<close>.
\<close>

definition endRegion :: "main_header \<Rightarrow> buffer \<Rightarrow> buffer" where
  "endRegion mh com = bufCopy com (mainToBinary mh) ENDHDR"

text \<open>The sort key of the serializations: the lower-cased name of an entry.\<close>

definition sortKey :: "platform \<Rightarrow> (ref \<Rightarrow> zip_entry) \<Rightarrow> ref \<Rightarrow> jsstring" where
  "sortKey P h r = toLowerCase P (entryName (h r))"

text \<open>The order in which \<open>compressToBuffer\<close> processes the entries: the sorted list.\<close>

definition syncOrder :: "platform \<Rightarrow> container \<Rightarrow> ref list" where
  "syncOrder P c =
     (if length (entryList c) > 1
      then arraySort (compareAscending P (heap c)) (entryList c) else entryList c)"

text \<open>The buffers that a run of \<open>toAsyncBuffer\<close> hands to \<open>onSuccess\<close>.\<close>

fun successes :: "callback list \<Rightarrow> buffer list" where
  "successes [] = []"
| "successes (Success b # evs) = b # successes evs"
| "successes (ev # evs) = successes evs"

text \<open>
  What the round trip compares of an entry: its name (decoded and raw), its compressed
  and uncompressed sizes and its CRC-32.
\<close>

definition entryInfo :: "zip_entry \<Rightarrow> jsstring \<times> buffer \<times> nat \<times> nat \<times> nat" where
  "entryInfo e =
     (entryName e, rawEntryName e, compressedSize (header e), usize (header e), crc (header e))"

definition entryInfos :: "container \<Rightarrow> (jsstring \<times> buffer \<times> nat \<times> nat \<times> nat) multiset" where
  "entryInfos c = mset (map (\<lambda>r. entryInfo (heap c r)) (entryList c))"

text \<open>
  An entry whose name, extra field and comment have the lengths that its header records:
  this is how an entry is read from a central directory that lies inside the buffer.
\<close>

definition complete :: "zip_entry \<Rightarrow> bool" where
  "complete e =
     (length (rawEntryName e) = fileNameLength (header e) \<and>
      length (extra e) = extraLength (header e) \<and>
      length (entryComment e) = commentLength (header e))"

text \<open>The fields of an entry header fit the widths of their binary fields.\<close>

definition fieldsInRange :: "entry_header \<Rightarrow> bool" where
  "fieldsInRange h =
     (made h < 65536 \<and> version h < 65536 \<and> flags h < 65536 \<and> how h < 65536 \<and>
      mtime h < 4294967296 \<and> crc h < 4294967296 \<and> compressedSize h < 4294967296 \<and>
      usize h < 4294967296 \<and> fileNameLength h < 65536 \<and> extraLength h < 65536 \<and>
      commentLength h < 65536 \<and> diskNumStart h < 65536 \<and> inAttr h < 65536 \<and>
      attr h < 4294967296 \<and> offset h < 4294967296)"

text \<open>
  An entry as \<open>readEntries\<close> leaves it: the name is the decoded raw name, and
  \<open>isDirectory\<close> is derived from it.
\<close>

definition parsedShape :: "platform \<Rightarrow> zip_entry \<Rightarrow> bool" where
  "parsedShape P e =
     (entryName e = toStr P (rawEntryName e) \<and>
      isDirectory e = nameIsDirectory (toStr P (rawEntryName e)))"

text \<open>
  The container that opening an archive gives, from the entries read \<open>es\<close>, the
  comment, the buffer and the end record.
\<close>

definition containerOf :: "zip_entry list \<Rightarrow> buffer \<Rightarrow> buffer \<Rightarrow> main_header \<Rightarrow> container" where
  "containerOf es com input mh =
     \<lparr>heap = (\<lambda>r. if r < length es then es ! r else newZipEntry),
      entryList = [0..<length es],
      entryTable = fold (\<lambda>r t. t(entryName (es ! r) \<mapsto> r)) [0..<length es] Map.empty,
      zipComment = com, inBuffer = input, mainHeader = mh\<rparr>"

text \<open>An entry with the offset of its local header set.\<close>

definition withOffset :: "zip_entry \<Rightarrow> nat \<Rightarrow> zip_entry" where
  "withOffset e d = e\<lparr>header := (header e)\<lparr>offset := d\<rparr>\<rparr>"

section \<open>Example data\<close>

text \<open>
  A platform for 7-bit data, where a code unit is its byte and only \<open>A\<close> to \<open>Z\<close> have a
  lower case; the capabilities hand out an entry's stored payload, here the bytes of
  \<open>payload\<close>, and leave the entry as it is.
\<close>

definition asciiLower :: "16 word \<Rightarrow> 16 word" where
  "asciiLower u = (if 0x41 \<le> u \<and> u \<le> 0x5A then u + 0x20 else u)"

definition asciiPlatform :: "(zip_entry \<Rightarrow> buffer) \<Rightarrow> platform" where
  "asciiPlatform payload =
     \<lparr>toStr = map ucast, utf8 = map ucast, toLowerCase = map asciiLower,
      getCompressedData = (\<lambda>e. (payload e, e)),
      getCompressedDataAsync = (\<lambda>e. (payload e, e))\<rparr>"

definition noPayload :: "zip_entry \<Rightarrow> buffer" where
  "noPayload e = []"

text \<open>The bytes of an Isabelle string literal.\<close>

definition bytes :: "string \<Rightarrow> buffer" where
  "bytes s = map (\<lambda>c. of_nat (of_char c)) s"

text \<open>An entry with a 7-bit name, no extra field, no comment and no data.\<close>

definition mkEntry :: "string \<Rightarrow> bool \<Rightarrow> zip_entry" where
  "mkEntry n d =
     \<lparr>header = emptyHeader\<lparr>fileNameLength := length n\<rparr>,
      entryName = js n, rawEntryName = bytes n, extra = [], entryComment = [],
      isDirectory = d\<rparr>"

text \<open>
  A directory \<open>a/\<close> with a subdirectory \<open>a/b/\<close>, a file \<open>a/b/c\<close> in it, and an unrelated
  file \<open>z.txt\<close>; list and table agree.
\<close>

definition nested :: container where
  "nested =
     \<lparr>heap = (\<lambda>r. if r = 0 then mkEntry ''a/'' True
                  else if r = 1 then mkEntry ''a/b/'' True
                  else if r = 2 then mkEntry ''a/b/c'' False
                  else mkEntry ''z.txt'' False),
      entryList = [0, 1, 2, 3],
      entryTable = [js ''a/'' \<mapsto> 0, js ''a/b/'' \<mapsto> 1, js ''a/b/c'' \<mapsto> 2,
                    js ''z.txt'' \<mapsto> 3],
      zipComment = [], inBuffer = [],
      mainHeader = \<lparr>diskEntries = 4, totalEntries = 4, mainSize = 0, mainOffset = 0,
                     mainCommentLength = 0\<rparr>\<rparr>"

text \<open>
  Two files \<open>b\<close> and \<open>a\<close>, in this order, and a third entry object, not yet in the
  container, that is also named \<open>a\<close>.
\<close>

definition twoFiles :: container where
  "twoFiles =
     \<lparr>heap = (\<lambda>r. if r = 0 then mkEntry ''b'' False else mkEntry ''a'' False),
      entryList = [0, 1],
      entryTable = [js ''b'' \<mapsto> 0, js ''a'' \<mapsto> 1],
      zipComment = [], inBuffer = [],
      mainHeader = \<lparr>diskEntries = 2, totalEntries = 2, mainSize = 0, mainOffset = 0,
                     mainCommentLength = 0\<rparr>\<rparr>"

text \<open>A container without entries.\<close>

definition noEntries :: container where
  "noEntries =
     \<lparr>heap = (\<lambda>r. newZipEntry), entryList = [], entryTable = Map.empty,
      zipComment = [], inBuffer = [],
      mainHeader = \<lparr>diskEntries = 0, totalEntries = 0, mainSize = 0, mainOffset = 0,
                     mainCommentLength = 0\<rparr>\<rparr>"

text \<open>
  The archive without entries and without comment: the end record alone. And the same
  with a comment of 22 bytes that itself starts with the signature.
\<close>

definition emptyArchive :: buffer where
  "emptyArchive = [0x50, 0x4B, 0x05, 0x06] @ replicate 18 0"

definition sigInComment :: buffer where
  "sigInComment =
     [0x50, 0x4B, 0x05, 0x06] @ replicate 16 0 @ [22, 0]
     @ [0x50, 0x4B, 0x05, 0x06] @ replicate 18 0"

text \<open>
  The end record alone after \<open>2^32 - 1\<close> zero bytes: a buffer of 4294967317 bytes with
  the signature at the offset 4294967295.
\<close>

definition beyond4G :: buffer where
  "beyond4G = replicate 4294967295 0 @ emptyArchive"




text \<open>
  A stored file named \<open>a\<close> of \<open>n\<close> zero bytes with CRC-32 \<open>c\<close>, and the capability that
  hands out the stored bytes of such a file.
\<close>

definition zeroFile :: "nat \<Rightarrow> nat \<Rightarrow> zip_entry" where
  "zeroFile n c =
     \<lparr>header = \<lparr>made = 20, version = 20, flags = 0, how = 0, mtime = 0, crc = c,
                 compressedSize = n, usize = n, fileNameLength = 1, extraLength = 0,
                 commentLength = 0, diskNumStart = 0, inAttr = 0, attr = 0, offset = 0\<rparr>,
      entryName = js ''a'', rawEntryName = bytes ''a'', extra = [], entryComment = [],
      isDirectory = False\<rparr>"

definition storedPayload :: "zip_entry \<Rightarrow> buffer" where
  "storedPayload e = replicate (compressedSize (header e)) 0"

text \<open>
  The archive of one stored file: its local header (with an extra field \<open>lx\<close> that only
  the local header has), its name, the extra field, its bytes; its central-directory
  header; the end record with the comment \<open>com\<close>.
\<close>

definition localPart :: "zip_entry \<Rightarrow> buffer \<Rightarrow> buffer" where
  "localPart e lx =
     dataHeaderToBinary ((header e)\<lparr>extraLength := length lx\<rparr>) @ rawEntryName e @ lx
     @ storedPayload e"

definition endOf :: "zip_entry \<Rightarrow> buffer \<Rightarrow> buffer \<Rightarrow> main_header" where
  "endOf e lx com =
     \<lparr>diskEntries = 1, totalEntries = 1, mainSize = length (packHeader e),
      mainOffset = length (localPart e lx), mainCommentLength = length com\<rparr>"

definition storedArchive :: "zip_entry \<Rightarrow> buffer \<Rightarrow> buffer \<Rightarrow> buffer" where
  "storedArchive e lx com =
     localPart e lx @ packHeader e @ endRegion (endOf e lx com) com"

text \<open>
  Two zero bytes, without local extra field and without comment: 102 bytes. And
  101010225 zero bytes (CRC-32 \<open>0x13015e20\<close>), with a local extra field of four bytes (an
  empty field with the id \<open>0x9999\<close>) and a comment of 16 zero bytes: there the central
  directory starts at \<open>0x06054b54\<close>, and it starts at \<open>0x06054b50\<close> in an archive without
  the local extra field.
\<close>

definition smallArchive :: buffer where
  "smallArchive = storedArchive (zeroFile 2 0x41d912ff) [] []"

definition bigArchive :: buffer where
  "bigArchive = storedArchive (zeroFile 101010225 0x13015e20) [0x99, 0x99, 0, 0] (replicate 16 0)"

section \<open>Properties\<close>

subsection \<open>The backward scan\<close>

lemma take4_drop:
  "i + 4 \<le> length buf \<Longrightarrow> take 4 (drop i buf) = [buf ! i, buf ! (i + 1), buf ! (i + 2), buf ! (i + 3)]"
proof -
  assume a: "i + 4 \<le> length buf"
  have "length (take 4 (drop i buf)) = 4" using a by simp
  moreover have "\<And>k. k < 4 \<Longrightarrow> take 4 (drop i buf) ! k = buf ! (i + k)" using a by simp
  ultimately show ?thesis
    by (intro nth_equalityI) (auto simp: nth_Cons' numeral_eq_Suc less_Suc_eq)
qed

lemma base256_unique:
  fixes a c x y :: nat
  assumes "a < 256" "c < 256" and e: "a + 256 * x = c + 256 * y"
  shows "a = c \<and> x = y"
proof -
  have "(a + 256 * x) mod 256 = a" "(c + 256 * y) mod 256 = c"
    using assms(1,2) by simp_all
  then have "a = c" using e by simp
  then show ?thesis using e by simp
qed

lemma le_bytes_unique:
  fixes a0 a1 a2 a3 c0 c1 c2 c3 :: nat
  assumes "a0 < 256" "a1 < 256" "a2 < 256" "a3 < 256" "c0 < 256" "c1 < 256" "c2 < 256" "c3 < 256"
    and e: "a0 + 256 * a1 + 65536 * a2 + 16777216 * a3 = c0 + 256 * c1 + 65536 * c2 + 16777216 * c3"
  shows "a0 = c0 \<and> a1 = c1 \<and> a2 = c2 \<and> a3 = c3"
proof -
  have e0: "a0 + 256 * (a1 + 256 * (a2 + 256 * a3)) = c0 + 256 * (c1 + 256 * (c2 + 256 * c3))"
    using e by simp
  from base256_unique[OF assms(1,5) e0]
  have h0: "a0 = c0" and e1: "a1 + 256 * (a2 + 256 * a3) = c1 + 256 * (c2 + 256 * c3)"
    by blast+
  from base256_unique[OF assms(2,6) e1]
  have h1: "a1 = c1" and e2: "a2 + 256 * a3 = c2 + 256 * c3"
    by blast+
  from base256_unique[OF assms(3,7) e2] h0 h1 show ?thesis by blast
qed

lemma le_sig_bytes:
  fixes b0 b1 b2 b3 :: byte
  shows "unat b0 + 256 * unat b1 + 65536 * unat b2 + 16777216 * unat b3 = 0x06054b50
     \<longleftrightarrow> b0 = 0x50 \<and> b1 = 0x4B \<and> b2 = 0x05 \<and> b3 = 0x06"
proof
  assume e: "unat b0 + 256 * unat b1 + 65536 * unat b2 + 16777216 * unat b3 = 0x06054b50"
  have b: "unat b0 < 256" "unat b1 < 256" "unat b2 < 256" "unat b3 < 256"
    using unsigned_less[of b0, where ?'a=nat] unsigned_less[of b1, where ?'a=nat]
      unsigned_less[of b2, where ?'a=nat] unsigned_less[of b3, where ?'a=nat] by simp_all
  have c: "(80::nat) < 256" "(75::nat) < 256" "(5::nat) < 256" "(6::nat) < 256" by simp_all
  have "unat b0 + 256 * unat b1 + 65536 * unat b2 + 16777216 * unat b3
      = 80 + 256 * 75 + 65536 * 5 + 16777216 * 6"
    using e by simp
  from le_bytes_unique[OF b c this]
  have u: "unat b0 = 80 \<and> unat b1 = 75 \<and> unat b2 = 5 \<and> unat b3 = 6" .
  have "unat b0 = unat (0x50::byte)" "unat b1 = unat (0x4B::byte)"
    "unat b2 = unat (5::byte)" "unat b3 = unat (6::byte)"
    using u by simp_all
  then show "b0 = 0x50 \<and> b1 = 0x4B \<and> b2 = 0x05 \<and> b3 = 0x06"
    by (simp only: word_unat_eq_iff[symmetric])
next
  assume "b0 = 0x50 \<and> b1 = 0x4B \<and> b2 = 0x05 \<and> b3 = 0x06"
  then show "unat b0 + 256 * unat b1 + 65536 * unat b2 + 16777216 * unat b3 = 0x06054b50"
    by simp
qed


lemma sig_test:
  assumes "0 \<le> i" "i + 4 \<le> int (length buf)"
  shows "(byteAt buf i = Some 0x50 \<and> readUInt32LE buf (nat i) = Some ENDSIG) \<longleftrightarrow> sigAt buf (nat i)"
    and "readUInt32LE buf (nat i) \<noteq> None"
    and "sigAt buf (nat i) \<Longrightarrow> byteAt buf i = Some 0x50"
proof -
  have l: "nat i + 4 \<le> length buf" using assms by linarith
  show "(byteAt buf i = Some 0x50 \<and> readUInt32LE buf (nat i) = Some ENDSIG) \<longleftrightarrow> sigAt buf (nat i)"
    using l assms by (auto simp: byteAt_def readUInt32LE_def ENDSIG_def sigAt_def take4_drop le_sig_bytes)
  show "readUInt32LE buf (nat i) \<noteq> None" using l by (simp add: readUInt32LE_def)
  show "sigAt buf (nat i) \<Longrightarrow> byteAt buf i = Some 0x50"
    using l assms by (auto simp: byteAt_def sigAt_def take4_drop)
qed

lemma scanEnd_none:
  assumes "0 \<le> n" "i + 4 \<le> int (length buf)" "\<forall>j. n \<le> j \<and> j \<le> i \<longrightarrow> \<not> sigAt buf (nat j)"
  shows "scanEnd buf n i = Inr (-1)"
  using assms
proof (induction buf n i rule: scanEnd.induct)
  case (1 buf n i)
  show ?case
  proof (cases "i \<ge> n")
    case False
    then show ?thesis by (subst scanEnd.simps) simp
  next
    case True
    have ns: "\<not> sigAt buf (nat i)" using True 1(5) by simp
    have i0: "0 \<le> i" using True 1(3) by simp
    have t: "\<not> (byteAt buf i = Some 0x50 \<and> readUInt32LE buf (nat i) = Some ENDSIG)"
      using sig_test(1)[OF i0 1(4)] ns by simp
    have r: "readUInt32LE buf (nat i) \<noteq> None" using sig_test(2)[OF i0 1(4)] .
    have ih: "scanEnd buf n (i - 1) = Inr (-1)"
    proof (cases "byteAt buf i \<noteq> Some 0x50")
      case True
      show ?thesis using 1(1)[OF \<open>i \<ge> n\<close> True] 1(3,4,5) by simp
    next
      case False
      obtain v where v: "readUInt32LE buf (nat i) = Some v" using r by auto
      have "v \<noteq> ENDSIG" using t False v by simp
      then show ?thesis using 1(2)[OF \<open>i \<ge> n\<close> False v] 1(3,4,5) by simp
    qed
    show ?thesis
      using True t r ih by (subst scanEnd.simps) (auto split: option.splits)
  qed
qed

lemma scanEnd_found:
  assumes "0 \<le> n" "i + 4 \<le> int (length buf)" "n \<le> p" "p \<le> i" "sigAt buf (nat p)"
    "\<forall>j. p < j \<and> j \<le> i \<longrightarrow> \<not> sigAt buf (nat j)"
  shows "scanEnd buf n i = Inr p"
  using assms
proof (induction buf n i rule: scanEnd.induct)
  case (1 buf n i)
  have i0: "0 \<le> i" using 1 by simp
  have True: "i \<ge> n" using 1 by simp
  have r: "readUInt32LE buf (nat i) \<noteq> None" using sig_test(2)[OF i0 1(4)] .
  show ?case
  proof (cases "p = i")
    case True
    then have "byteAt buf i = Some 0x50 \<and> readUInt32LE buf (nat i) = Some ENDSIG"
      using sig_test(1)[OF i0 1(4)] 1(7) by simp
    then show ?thesis using \<open>i \<ge> n\<close> True by (subst scanEnd.simps) simp
  next
    case False
    then have ns: "\<not> sigAt buf (nat i)" using 1(6,8) by simp
    have t: "\<not> (byteAt buf i = Some 0x50 \<and> readUInt32LE buf (nat i) = Some ENDSIG)"
      using sig_test(1)[OF i0 1(4)] ns by simp
    have ih: "scanEnd buf n (i - 1) = Inr p"
    proof (cases "byteAt buf i \<noteq> Some 0x50")
      case True
      show ?thesis using 1(1)[OF \<open>i \<ge> n\<close> True] 1(3-8) False by simp
    next
      case F: False
      obtain v where v: "readUInt32LE buf (nat i) = Some v" using r by auto
      have "v \<noteq> ENDSIG" using t F v by simp
      then show ?thesis using 1(2)[OF \<open>i \<ge> n\<close> F v] 1(3-8) False by simp
    qed
    show ?thesis
      using True t r ih by (subst scanEnd.simps) (auto split: option.splits)
  qed
qed


lemma last_filter_upt:
  assumes "filter Q [lo..<hi] \<noteq> []"
  shows "Q (last (filter Q [lo..<hi])) \<and> lo \<le> last (filter Q [lo..<hi])
    \<and> last (filter Q [lo..<hi]) < hi
    \<and> (\<forall>j. last (filter Q [lo..<hi]) < j \<and> j < hi \<longrightarrow> \<not> Q j)"
  using assms
proof (induction hi)
  case 0
  then show ?case by simp
next
  case (Suc hi)
  show ?case
  proof (cases "lo \<le> hi")
    case False
    then show ?thesis using Suc.prems by simp
  next
    case True
    show ?thesis
    proof (cases "Q hi")
      case Qhi: True
      have l: "last (filter Q [lo..<Suc hi]) = hi"
        using True Qhi by simp
      have "\<And>j. hi < j \<Longrightarrow> j < Suc hi \<Longrightarrow> False"
        by linarith
      then show ?thesis
        unfolding l using True Qhi by blast
    next
      case False
      then have f: "filter Q [lo..<Suc hi] = filter Q [lo..<hi]" using True by simp
      then have "filter Q [lo..<hi] \<noteq> []" using Suc.prems by simp
      from Suc.IH[OF this]
      have ih: "Q (last (filter Q [lo..<hi]))" "lo \<le> last (filter Q [lo..<hi])"
        "last (filter Q [lo..<hi]) < hi"
        "\<forall>j. last (filter Q [lo..<hi]) < j \<and> j < hi \<longrightarrow> \<not> Q j"
        by blast+
      have g: "\<And>j. last (filter Q [lo..<hi]) < j \<Longrightarrow> j < Suc hi \<Longrightarrow> \<not> Q j"
      proof -
        fix j assume "last (filter Q [lo..<hi]) < j" "j < Suc hi"
        then have "j = hi \<or> (last (filter Q [lo..<hi]) < j \<and> j < hi)" by linarith
        then show "\<not> Q j" using ih(4) False by blast
      qed
      have "last (filter Q [lo..<hi]) < Suc hi" using ih(3) by simp
      then show ?thesis
        unfolding f using ih(1,2) g by blast
    qed
  qed
qed

lemma findEndOffset_none:
  assumes "sigOffsets buf = []"
  shows "findEndOffset buf = Inr (-1)"
proof -
  define i where "i = int (length buf) - int ENDHDR"
  define n where "n = max 0 (i - 0xFFFF)"
  have none: "\<forall>j. n \<le> j \<and> j \<le> i \<longrightarrow> \<not> sigAt buf (nat j)"
  proof (intro allI impI)
    fix j assume j: "n \<le> j \<and> j \<le> i"
    then have "nat j \<in> set (window buf)"
      by (auto simp: window_def i_def n_def)
    then show "\<not> sigAt buf (nat j)"
      using assms by (auto simp: sigOffsets_def filter_empty_conv)
  qed
  have "scanEnd buf n i = Inr (-1)"
    by (rule scanEnd_none[OF _ _ none]) (simp_all add: n_def i_def ENDHDR_def)
  then show ?thesis by (simp add: findEndOffset_def Let_def i_def n_def)
qed

lemma findEndOffset_some:
  assumes "sigOffsets buf \<noteq> []"
  shows "findEndOffset buf = Inr (int (last (sigOffsets buf)))"
proof -
  define i where "i = int (length buf) - int ENDHDR"
  define n where "n = max 0 (i - 0xFFFF)"
  define p where "p = last (sigOffsets buf)"
  have w: "window buf = [nat n..<nat (i + 1)]"
    by (simp add: window_def i_def n_def)
  from last_filter_upt[of "sigAt buf" "nat n" "nat (i + 1)"] assms
  have p: "sigAt buf p" "nat n \<le> p" "p < nat (i + 1)"
    "\<forall>j. p < j \<and> j < nat (i + 1) \<longrightarrow> \<not> sigAt buf j"
    unfolding sigOffsets_def w p_def by blast+
  have n0: "0 \<le> n" by (simp add: n_def)
  have "scanEnd buf n i = Inr (int p)"
  proof (rule scanEnd_found[OF n0])
    show "i + 4 \<le> int (length buf)" by (simp add: i_def ENDHDR_def)
    show "n \<le> int p" using p(2) n0 by linarith
    show "int p \<le> i" using p(3) by linarith
    show "sigAt buf (nat (int p))" using p(1) by simp
    show "\<forall>j. int p < j \<and> j \<le> i \<longrightarrow> \<not> sigAt buf (nat j)"
    proof (intro allI impI)
      fix j assume "int p < j \<and> j \<le> i"
      then have "p < nat j \<and> nat j < nat (i + 1)" by linarith
      then show "\<not> sigAt buf (nat j)" using p(4) by blast
    qed
  qed
  then show ?thesis by (simp add: findEndOffset_def Let_def i_def n_def p_def)
qed

lemma readEntriesLoop_error:
  "readEntriesLoop P buf n index = Inl e \<Longrightarrow> e = RANGE_ERROR"
  by (induction n arbitrary: index e)
     (auto simp: readEntry_def Let_def split: sum.splits option.splits)

lemma loadAt_error: "loadAt P buf p = Inl e \<Longrightarrow> e = RANGE_ERROR"
  by (auto simp: loadAt_def readEntries_def split: option.splits sum.splits
      dest: readEntriesLoop_error)

lemma sigAt_append: "sigAt (pre @ rest) (length pre + k) = sigAt rest k"
  by (simp add: sigAt_def)

text \<open>
  The scan of a buffer finds the right-most signature of the window of any of its tails
  that has one in its window.
\<close>

lemma findEndOffset_tail:
  assumes ne: "sigOffsets rest \<noteq> []"
  shows "findEndOffset (pre @ rest) = Inr (int (length pre + last (sigOffsets rest)))"
proof -
  define q where "q = last (sigOffsets rest)"
  define lo where "lo = nat (max 0 (int (length rest) - int ENDHDR - 0xFFFF))"
  define hi where "hi = nat (int (length rest) - int ENDHDR + 1)"
  from last_filter_upt[of "sigAt rest" lo hi] ne
  have q: "sigAt rest q" "lo \<le> q" "q < hi" "\<forall>j. q < j \<and> j < hi \<longrightarrow> \<not> sigAt rest j"
    unfolding sigOffsets_def window_def q_def lo_def hi_def by blast+
  define i where "i = int (length (pre @ rest)) - int ENDHDR"
  define n where "n = max 0 (i - 0xFFFF)"
  have l22: "int ENDHDR \<le> int (length rest)" using q(3) unfolding hi_def by linarith
  have "scanEnd (pre @ rest) n i = Inr (int (length pre + q))"
  proof (rule scanEnd_found)
    show "0 \<le> n" by (simp add: n_def)
    show "i + 4 \<le> int (length (pre @ rest))" by (simp add: i_def ENDHDR_def)
    show "n \<le> int (length pre + q)"
      using q(2) unfolding n_def i_def lo_def by (simp add: ENDHDR_def; linarith)
    show "int (length pre + q) \<le> i"
      using q(3) l22 unfolding i_def hi_def by (simp add: ENDHDR_def; linarith)
    show "sigAt (pre @ rest) (nat (int (length pre + q)))"
      using q(1) by (simp add: sigAt_append nat_int_add)
    show "\<forall>j. int (length pre + q) < j \<and> j \<le> i \<longrightarrow> \<not> sigAt (pre @ rest) (nat j)"
    proof (intro allI impI)
      fix j assume j: "int (length pre + q) < j \<and> j \<le> i"
      define k where "k = nat j - length pre"
      have nj: "nat j = length pre + k" using j unfolding k_def by linarith
      have "q < k \<and> k < hi"
        using j l22 unfolding k_def i_def hi_def by (simp add: ENDHDR_def; linarith)
      then have "\<not> sigAt rest k" using q(4) by blast
      then show "\<not> sigAt (pre @ rest) (nat j)"
        unfolding nj by (simp add: sigAt_append)
    qed
  qed
  then show ?thesis
    by (simp add: findEndOffset_def Let_def i_def n_def q_def)
qed

text \<open>
  The test \<open>!~endOffset\<close> holds for \<open>-1\<close>, holds for no offset from \<open>0\<close> to \<open>2^32 - 2\<close>,
  and holds again for \<open>2^32 - 1\<close>.
\<close>

lemma bitNot_minus_one: "bitNot (-1) = 0"
  by (simp add: bitNot_def toInt32_def)

lemma bitNot_offset:
  assumes "0 \<le> x" and "x < 4294967295"
  shows "bitNot x \<noteq> 0"
proof (cases "x < 2147483648")
  case True
  then have "(x + 2147483648) mod 4294967296 = x + 2147483648"
    using assms(1) by (simp add: mod_pos_pos_trivial)
  then show ?thesis
    using assms(1) by (simp add: bitNot_def toInt32_def)
next
  case False
  have "x + 2147483648 = (x - 2147483648) + 4294967296" by simp
  then have "(x + 2147483648) mod 4294967296 = (x - 2147483648) mod 4294967296"
    by (simp only: mod_add_self2)
  also have "\<dots> = x - 2147483648"
    using False assms(2) by (simp add: mod_pos_pos_trivial)
  finally show ?thesis
    using assms(2) by (simp add: bitNot_def toInt32_def)
qed

lemma bitNot_wrap: "bitNot 4294967295 = 0"
  by (simp add: bitNot_def toInt32_def)

lemma sigOffsets_bound:
  assumes "sigOffsets buf \<noteq> []"
  shows "last (sigOffsets buf) + ENDHDR \<le> length buf"
proof -
  from assms have "last (sigOffsets buf) \<in> set (sigOffsets buf)"
    by (rule last_in_set)
  then have "last (sigOffsets buf) \<in> set (window buf)"
    by (simp add: sigOffsets_def)
  then show ?thesis
    by (simp add: window_def; linarith)
qed

text \<open>What opening a buffer does, for every buffer.\<close>

lemma zipFile_cases:
  "zipFile P buf =
     (if sigOffsets buf = [] \<or> bitNot (int (last (sigOffsets buf))) = 0
      then Inl INVALID_FORMAT else loadAt P buf (last (sigOffsets buf)))"
proof (cases "sigOffsets buf = []")
  case True
  then show ?thesis
    by (simp add: zipFile_def readMainHeader_def findEndOffset_none bitNot_minus_one)
next
  case False
  then show ?thesis
    by (simp add: zipFile_def readMainHeader_def findEndOffset_some)
qed

text \<open>
  C2, amended: for a buffer of fewer than \<open>2^32 + 21\<close> bytes (every offset of the window
  is then below \<open>2^32 - 1\<close>), opening fails with \<open>INVALID_FORMAT\<close> exactly when the
  signature occurs at no offset of the window from \<open>max(0, L - ENDHDR - 0xFFFF)\<close> to
  \<open>L - ENDHDR\<close>; when it occurs there, the scan selects the right-most such offset, and
  the archive is read with the end record at that offset.
\<close>

theorem open_invalid_format_iff:
  assumes "length buf < 4294967317"
  shows "(zipFile P buf = Inl INVALID_FORMAT \<longleftrightarrow> sigOffsets buf = []) \<and>
   (sigOffsets buf \<noteq> [] \<longrightarrow>
      findEndOffset buf = Inr (int (last (sigOffsets buf))) \<and>
      zipFile P buf = loadAt P buf (last (sigOffsets buf)))"
proof (cases "sigOffsets buf = []")
  case True
  then show ?thesis
    by (simp add: zipFile_cases)
next
  case False
  have "last (sigOffsets buf) + ENDHDR \<le> length buf"
    using False by (rule sigOffsets_bound)
  then have "int (last (sigOffsets buf)) < 4294967295"
    using assms by (simp add: ENDHDR_def)
  then have b: "bitNot (int (last (sigOffsets buf))) \<noteq> 0"
    by (intro bitNot_offset) simp_all
  have "loadAt P buf (last (sigOffsets buf)) \<noteq> Inl INVALID_FORMAT"
    using loadAt_error[of P buf "last (sigOffsets buf)" INVALID_FORMAT] by auto
  then show ?thesis
    using False b by (simp add: zipFile_cases findEndOffset_some)
qed

theorem open_invalid_format_iff_witness:
  "length sigInComment < 4294967317 \<and>
   sigOffsets sigInComment = [0, 22] \<and>
   findEndOffset sigInComment = Inr 22 \<and>
   zipFile (asciiPlatform noPayload) sigInComment
     = loadAt (asciiPlatform noPayload) sigInComment 22 \<and>
   sigOffsets (replicate 30 0) = [] \<and>
   zipFile (asciiPlatform noPayload) (replicate 30 0) = Inl INVALID_FORMAT"
proof -
  have s: "sigOffsets sigInComment = [0, 22]"
    by code_simp
  have t: "sigOffsets (replicate 30 0) = []"
    by code_simp
  have l: "length sigInComment < 4294967317"
    by (simp add: sigInComment_def)
  have l': "length (replicate 30 (0::byte)) < 4294967317"
    by simp
  show ?thesis
    using open_invalid_format_iff[OF l, of "asciiPlatform noPayload"]
      open_invalid_format_iff[OF l', of "asciiPlatform noPayload"] s t l
    by simp
qed

text \<open>
  The claim C2 as it is stated, for every buffer, fails for \<open>beyond4G\<close>: the window holds
  the signature, at the offset \<open>2^32 - 1\<close>, the scan finds it there, and opening the
  buffer fails with \<open>INVALID_FORMAT\<close>.
\<close>

theorem open_invalid_format_iff_counterexample:
  "length beyond4G = 4294967317 \<and>
   sigOffsets beyond4G \<noteq> [] \<and>
   last (sigOffsets beyond4G) = 4294967295 \<and>
   findEndOffset beyond4G = Inr 4294967295 \<and>
   zipFile (asciiPlatform noPayload) beyond4G = Inl INVALID_FORMAT"
proof -
  have e: "sigOffsets emptyArchive = [0]"
    by code_simp
  have l: "length beyond4G = 4294967317"
    by (simp add: beyond4G_def emptyArchive_def)
  have f: "findEndOffset beyond4G = Inr 4294967295"
    unfolding beyond4G_def
    using findEndOffset_tail[of emptyArchive "replicate 4294967295 0"] e by simp
  have ne: "sigOffsets beyond4G \<noteq> []"
  proof
    assume "sigOffsets beyond4G = []"
    then have "findEndOffset beyond4G = Inr (-1)" by (rule findEndOffset_none)
    with f show False by simp
  qed
  have "findEndOffset beyond4G = Inr (int (last (sigOffsets beyond4G)))"
    using ne by (rule findEndOffset_some)
  with f have p: "last (sigOffsets beyond4G) = 4294967295"
    by simp
  have z: "zipFile (asciiPlatform noPayload) beyond4G = Inl INVALID_FORMAT"
    using ne p by (simp add: zipFile_cases bitNot_wrap)
  from l ne p f z show ?thesis by blast
qed

subsection \<open>The entry table\<close>

lemma splice1_minus_one: "splice1 (-1) xs = butlast xs"
  by (cases xs rule: rev_cases) (auto simp: splice1_def Let_def max_def)

text \<open>
  C10: when the table does not contain the name, \<open>deleteEntry\<close> (on any stack that allows
  one call) removes the last element of the list, through \<open>splice(-1, 1)\<close>, leaves the
  table as it is and sets \<open>totalEntries\<close> to the shortened length; on a non-empty list it
  is not a no-op.
\<close>

theorem deleteEntry_absent_name:
  assumes "entryTable c name = None"
  shows "deleteEntry (Suc k) name c =
           Some (c\<lparr>entryList := butlast (entryList c),
                   entryTable := entryTable c,
                   mainHeader := (mainHeader c)
                     \<lparr>totalEntries := length (entryList c) - 1\<rparr>\<rparr>)
         \<and> (entryList c \<noteq> [] \<longrightarrow> deleteEntry (Suc k) name c \<noteq> Some c)"
proof -
  have t: "(entryTable c)(name := None) = entryTable c"
    using assms by (simp add: fun_upd_idem)
  have d: "deleteEntry (Suc k) name c =
           Some (c\<lparr>entryList := butlast (entryList c),
                   entryTable := entryTable c,
                   mainHeader := (mainHeader c)
                     \<lparr>totalEntries := length (entryList c) - 1\<rparr>\<rparr>)"
    using assms t by (simp add: indexOfEntry_def splice1_minus_one)
  have "entryList c \<noteq> [] \<Longrightarrow> deleteEntry (Suc k) name c \<noteq> Some c"
  proof
    assume ne: "entryList c \<noteq> []" and "deleteEntry (Suc k) name c = Some c"
    then have "entryList c = butlast (entryList c)"
      using d by (metis container.select_convs(2) container.surjective
          container.update_convs(2) container.update_convs(3) container.update_convs(6)
          option.inject)
    then have "length (entryList c) = length (entryList c) - 1"
      by (metis length_butlast)
    then show False using ne by (cases "entryList c") simp_all
  qed
  with d show ?thesis by blast
qed

theorem deleteEntry_absent_name_witness:
  "entryTable nested (js ''q'') = None \<and>
   map_option entryList (deleteEntry (Suc 0) (js ''q'') nested) = Some [0, 1, 2] \<and>
   map_option (totalEntries \<circ> mainHeader) (deleteEntry (Suc 0) (js ''q'') nested) = Some 3"
proof -
  have a: "entryTable nested (js ''q'') = None"
    by (simp add: nested_def js_def)
  have l: "entryList nested = [0, 1, 2, 3]"
    by (simp add: nested_def)
  show ?thesis
    using deleteEntry_absent_name[OF a, of 0] a l by simp
qed

lemma set_splice1: "set (splice1 i xs) \<subseteq> set xs"
proof -
  have "set (take a xs) \<union> set (drop b xs) \<subseteq> set xs" for a b
    using set_take_subset[of a xs] set_drop_subset[of b xs] by blast
  then show ?thesis by (simp add: splice1_def Let_def)
qed

lemma forEachM_invariant:
  assumes "I s"
    and "\<And>x s. x \<in> set xs \<Longrightarrow> I s \<Longrightarrow> \<exists>s'. f x s = Some s' \<and> I s'"
  shows "\<exists>s'. forEachM f xs s = Some s' \<and> I s'"
  using assms
proof (induction xs arbitrary: s)
  case Nil
  then show ?case by simp
next
  case (Cons x xs)
  from Cons.prems(2)[of x s] Cons.prems(1) obtain s1 where s1: "f x s = Some s1" "I s1"
    by auto
  from Cons.IH[OF s1(2)] Cons.prems(2) obtain s2 where "forEachM f xs s1 = Some s2" "I s2"
    by auto
  with s1 show ?case by simp
qed

lemma longer_of_prefix:
  assumes "take (length n) m = n" and "m \<noteq> n"
  shows "length n < length m"
proof (rule ccontr)
  assume "\<not> length n < length m"
  then have "take (length n) m = m" by simp
  with assms show False by simp
qed

text \<open>
  In a container whose table binds every name to an entry of that name (as \<open>setEntry\<close>
  and \<open>readEntries\<close> bind them), the names that \<open>deleteEntry\<close> calls itself for get
  longer with every call, so a stack deeper than the longest name of the list is enough:
  \<open>deleteEntry\<close> returns, and it only removes entries and bindings.
\<close>

lemma deleteEntry_returns:
  assumes "\<forall>n e. entryTable c n = Some e \<longrightarrow> entryName (heap c e) = n"
    and "\<forall>r\<in>set (entryList c). length (entryName (heap c r)) < k + length name"
    and "0 < k"
  shows "\<exists>c'. deleteEntry k name c = Some c' \<and> heap c' = heap c \<and>
           set (entryList c') \<subseteq> set (entryList c) \<and>
           (\<forall>n e. entryTable c' n = Some e \<longrightarrow> entryTable c n = Some e)"
  using assms
proof (induction k arbitrary: name c)
  case 0
  then show ?case by simp
next
  case (Suc k)
  let ?I = "\<lambda>c'. heap c' = heap c \<and> set (entryList c') \<subseteq> set (entryList c) \<and>
           (\<forall>n e. entryTable c' n = Some e \<longrightarrow> entryTable c n = Some e)"
  let ?body = "\<lambda>child c'. if entryName (heap c' child) \<noteq> name
                      then deleteEntry k (entryName (heap c' child)) c' else Some c'"
  let ?fin = "\<lambda>c1. c1\<lparr>entryList := splice1 (indexOfEntry (entryList c1) (entryTable c name))
                            (entryList c1),
                       entryTable := (entryTable c1)(name := None),
                       mainHeader := (mainHeader c1)\<lparr>totalEntries :=
                          length (splice1 (indexOfEntry (entryList c1) (entryTable c name))
                            (entryList c1))\<rparr>\<rparr>"
  have fin: "?I (?fin c1)" if i: "?I c1" for c1
  proof (intro conjI allI impI)
    show "heap (?fin c1) = heap c" using i by simp
    show "set (entryList (?fin c1)) \<subseteq> set (entryList c)"
      using i set_splice1[of "indexOfEntry (entryList c1) (entryTable c name)" "entryList c1"]
      by simp blast
    fix n e assume "entryTable (?fin c1) n = Some e"
    then have "entryTable c1 n = Some e" by (simp split: if_splits)
    with i show "entryTable c n = Some e" by blast
  qed
  have "\<exists>c1. (case entryTable c name of None \<Rightarrow> Some c
            | Some e \<Rightarrow> if isDirectory (heap c e)
                then forEachM ?body (getEntryChildren c e) c else Some c) = Some c1 \<and> ?I c1"
  proof (cases "entryTable c name")
    case None
    then show ?thesis by simp
  next
    case (Some e)
    show ?thesis
    proof (cases "isDirectory (heap c e)")
      case False
      with Some show ?thesis by simp
    next
      case True
      have en: "entryName (heap c e) = name"
        using Suc.prems(1) Some by blast
      have step: "\<exists>s'. ?body x s = Some s' \<and> ?I s'"
        if x: "x \<in> set (getEntryChildren c e)" and s: "?I s" for x s
      proof (cases "entryName (heap s x) = name")
        case True
        with s show ?thesis by simp
      next
        case False
        let ?m = "entryName (heap c x)"
        from x True en have xl: "x \<in> set (entryList c)" and pre: "take (length name) ?m = name"
          by (auto simp: getEntryChildren_def Let_def)
        from False s have ne: "?m \<noteq> name" by simp
        from longer_of_prefix[OF pre ne] have lg: "length name < length ?m" .
        from Suc.prems(2) xl have bx: "length ?m < Suc k + length name" by blast
        have k0: "0 < k" using lg bx by linarith
        have wf: "\<forall>n e. entryTable s n = Some e \<longrightarrow> entryName (heap s e) = n"
        proof (intro allI impI)
          fix n e assume "entryTable s n = Some e"
          with s have "entryTable c n = Some e" by blast
          with Suc.prems(1) have "entryName (heap c e) = n" by blast
          with s show "entryName (heap s e) = n" by simp
        qed
        have bd: "\<forall>r\<in>set (entryList s). length (entryName (heap s r)) < k + length ?m"
        proof
          fix r assume "r \<in> set (entryList s)"
          with s have "r \<in> set (entryList c)" by blast
          with Suc.prems(2) have "length (entryName (heap c r)) < Suc k + length name" by blast
          with lg s show "length (entryName (heap s r)) < k + length ?m" by simp
        qed
        from Suc.IH[OF wf bd k0] obtain c' where
          d: "deleteEntry k ?m s = Some c'" and h: "heap c' = heap s"
          and l: "set (entryList c') \<subseteq> set (entryList s)"
          and t: "\<forall>n e. entryTable c' n = Some e \<longrightarrow> entryTable s n = Some e"
          by blast
        have "?I c'"
        proof (intro conjI allI impI)
          show "heap c' = heap c" using h s by simp
          show "set (entryList c') \<subseteq> set (entryList c)" using l s by blast
          fix n e assume "entryTable c' n = Some e"
          with t have "entryTable s n = Some e" by blast
          with s show "entryTable c n = Some e" by blast
        qed
        moreover have "?body x s = Some c'" using False d s by simp
        ultimately show ?thesis by blast
      qed
      have "?I c" by simp
      from forEachM_invariant[of ?I c "getEntryChildren c e" ?body, OF this step]
      obtain c1 where f: "forEachM ?body (getEntryChildren c e) c = Some c1" and "?I c1"
        by blast
      moreover have "(case entryTable c name of None \<Rightarrow> Some c
            | Some e \<Rightarrow> if isDirectory (heap c e)
                then forEachM ?body (getEntryChildren c e) c else Some c) = Some c1"
        unfolding Some using True f by simp
      ultimately show ?thesis by blast
    qed
  qed
  then obtain c1 where c1: "(case entryTable c name of None \<Rightarrow> Some c
            | Some e \<Rightarrow> if isDirectory (heap c e)
                then forEachM ?body (getEntryChildren c e) c else Some c) = Some c1"
    and i1: "?I c1"
    by blast
  define c2 where "c2 = ?fin c1"
  have d: "deleteEntry (Suc k) name c = Some c2"
    unfolding c2_def deleteEntry.simps Let_def c1 by simp
  have "?I c2"
    unfolding c2_def by (rule fin[OF i1])
  with d show ?case by blast
qed

text \<open>
  C6: after \<open>setEntry\<close>, and after every \<open>deleteEntry\<close> that returns (as it does by
  \<open>deleteEntry_returns\<close>), \<open>mainHeader.totalEntries\<close> is the length of \<open>entryList\<close>.
\<close>

theorem totalEntries_after_mutation:
  "totalEntries (mainHeader (setEntry e c)) = length (entryList (setEntry e c)) \<and>
   (deleteEntry k name c = Some c' \<longrightarrow>
      totalEntries (mainHeader c') = length (entryList c'))"
proof (cases k)
  case 0
  then show ?thesis by (simp add: setEntry_def Let_def)
next
  case (Suc j)
  then show ?thesis
    by (auto simp: setEntry_def Let_def split: option.splits)
qed

theorem totalEntries_after_mutation_witness:
  "totalEntries (mainHeader (setEntry 2 twoFiles)) = 3 \<and>
   length (entryList (setEntry 2 twoFiles)) = 3 \<and>
   map_option (totalEntries \<circ> mainHeader) (deleteEntry 3 (js ''a/b/'') nested) = Some 2 \<and>
   map_option (length \<circ> entryList) (deleteEntry 3 (js ''a/b/'') nested) = Some 2"
proof -
  have "map_option entryList (deleteEntry 3 (js ''a/b/'') nested) = Some [0, 3]"
    by code_simp
  then obtain c' where c': "deleteEntry 3 (js ''a/b/'') nested = Some c'"
    and "entryList c' = [0, 3]"
    by auto
  then have l: "length (entryList c') = 2"
    by simp
  have s: "length (entryList (setEntry 2 twoFiles)) = 3"
    by (simp add: setEntry_def twoFiles_def Let_def)
  show ?thesis
    using totalEntries_after_mutation[of 2 twoFiles 0 "[]" twoFiles]
      totalEntries_after_mutation[of 0 nested 3 "js ''a/b/''" c'] c' l s
    by simp
qed

text \<open>
  C7, amended: when the table binds the name of the new entry to an old entry of the
  list, and the list is at least as long as the table has keys (as it is after opening
  an archive), \<open>setEntry\<close> rebinds the name to the new entry and appends the new entry,
  the old entry stays in the list, and the list is longer than the table has keys.
\<close>

theorem setEntry_duplicate_name:
  assumes "entryTable c (entryName (heap c e)) = Some old"
    and "old \<in> set (entryList c)"
    and "card (dom (entryTable c)) \<le> length (entryList c)"
  shows "entryTable (setEntry e c) (entryName (heap c e)) = Some e \<and>
         entryList (setEntry e c) = entryList c @ [e] \<and>
         old \<in> set (entryList (setEntry e c)) \<and>
         card (dom (entryTable (setEntry e c))) < length (entryList (setEntry e c))"
proof -
  have "dom ((entryTable c)(entryName (heap c e) \<mapsto> e)) = dom (entryTable c)"
    using assms(1) by auto
  then show ?thesis
    using assms by (simp add: setEntry_def Let_def)
qed

lemma js_a_neq_b: "js ''b'' \<noteq> js ''a''"
  by (simp add: js_def)

theorem setEntry_duplicate_name_witness:
  "entryTable twoFiles (entryName (heap twoFiles 2)) = Some 1 \<and>
   card (dom (entryTable twoFiles)) = 2 \<and>
   entryTable (setEntry 2 twoFiles) (entryName (heap twoFiles 2)) = Some 2 \<and>
   entryList (setEntry 2 twoFiles) = entryList twoFiles @ [2] \<and>
   1 \<in> set (entryList (setEntry 2 twoFiles)) \<and>
   card (dom (entryTable (setEntry 2 twoFiles)))
     < length (entryList (setEntry 2 twoFiles))"
proof -
  have p1: "entryTable twoFiles (entryName (heap twoFiles 2)) = Some 1"
    by (simp add: twoFiles_def mkEntry_def)
  have d: "dom (entryTable twoFiles) = {js ''b'', js ''a''}"
    by (auto simp: twoFiles_def)
  have k: "card (dom (entryTable twoFiles)) = 2"
    unfolding d using js_a_neq_b by simp
  have p2: "1 \<in> set (entryList twoFiles)"
    by (simp add: twoFiles_def)
  have p3: "card (dom (entryTable twoFiles)) \<le> length (entryList twoFiles)"
    unfolding k by (simp add: twoFiles_def)
  show ?thesis
    using setEntry_duplicate_name[OF p1 p2 p3] p1 k by blast
qed

text \<open>
  The claim C7 as it is stated fails where the list is shorter than the table: after
  \<open>deleteEntry\<close> with a name that the table does not contain has removed the last
  element \<open>a\<close> of the list of \<open>twoFiles\<close>, the table still has two keys, \<open>b\<close> is in the
  list and in the table, and \<open>setEntry\<close> with another entry named \<open>b\<close> leaves a list of
  two entries against two keys.
\<close>

theorem setEntry_duplicate_name_counterexample:
  "deleteEntry (Suc 0) (js ''q'') twoFiles
     = Some (twoFiles\<lparr>entryList := [0],
          mainHeader := (mainHeader twoFiles)\<lparr>totalEntries := 1\<rparr>\<rparr>) \<and>
   entryTable twoFiles (js ''b'') = Some 0 \<and>
   \<not> card (dom (entryTable (setEntry 0
          (twoFiles\<lparr>entryList := [0],
             mainHeader := (mainHeader twoFiles)\<lparr>totalEntries := 1\<rparr>\<rparr>))))
      < length (entryList (setEntry 0
          (twoFiles\<lparr>entryList := [0],
             mainHeader := (mainHeader twoFiles)\<lparr>totalEntries := 1\<rparr>\<rparr>)))"
proof -
  have a: "entryTable twoFiles (js ''q'') = None"
    by (simp add: twoFiles_def js_def)
  have l: "entryList twoFiles = [0, 1]"
    by (simp add: twoFiles_def)
  have t: "(entryTable twoFiles)(js ''q'' := None) = entryTable twoFiles"
    using a by (simp add: fun_upd_idem)
  have 1: "deleteEntry (Suc 0) (js ''q'') twoFiles
     = Some (twoFiles\<lparr>entryList := [0],
          mainHeader := (mainHeader twoFiles)\<lparr>totalEntries := 1\<rparr>\<rparr>)"
    using a l t by (simp add: indexOfEntry_def splice1_minus_one)
  have 2: "entryTable twoFiles (js ''b'') = Some 0"
    using js_a_neq_b by (simp add: twoFiles_def)
  have n: "entryName (heap twoFiles 0) = js ''b''"
    by (simp add: twoFiles_def mkEntry_def)
  have d: "dom ((entryTable twoFiles)(js ''b'' \<mapsto> 0)) = {js ''b'', js ''a''}"
    by (auto simp: twoFiles_def)
  have 3: "card (dom (entryTable (setEntry 0
          (twoFiles\<lparr>entryList := [0],
             mainHeader := (mainHeader twoFiles)\<lparr>totalEntries := 1\<rparr>\<rparr>)))) = 2"
    using n d js_a_neq_b by (simp add: setEntry_def Let_def)
  have 4: "length (entryList (setEntry 0
          (twoFiles\<lparr>entryList := [0],
             mainHeader := (mainHeader twoFiles)\<lparr>totalEntries := 1\<rparr>\<rparr>))) = 2"
    by (simp add: setEntry_def Let_def)
  show ?thesis using 1 2 3 4 by simp
qed

text \<open>
  C5: deleting the directory \<open>a/\<close> of \<open>nested\<close> also deletes the subdirectory \<open>a/b/\<close>,
  which deletes \<open>a/b/c\<close>; the outer loop then deletes the name \<open>a/b/c\<close> again, which the
  table no longer contains, and that takes the last element out of the list: the
  unrelated \<open>z.txt\<close>, whose name does not start with \<open>a/\<close> and which the table keeps.
\<close>

theorem deleteEntry_nested_directory:
  "map_option entryList (deleteEntry 3 (js ''a/'') nested) = Some [] \<and>
   map_option (\<lambda>c. entryTable c (js ''z.txt'')) (deleteEntry 3 (js ''a/'') nested)
     = Some (Some 3) \<and>
   take (length (js ''a/'')) (entryName (heap nested 3)) \<noteq> js ''a/''"
  by code_simp

subsection \<open>Sorting\<close>

lemma mset_insertBy: "mset (insertBy cmp x xs) = add_mset x (mset xs)"
  by (induction xs) auto

lemma set_insertBy: "set (insertBy cmp x xs) = insert x (set xs)"
  by (induction xs) auto

lemma mset_arraySort: "mset (arraySort cmp xs) = mset xs"
  by (induction xs) (auto simp: arraySort_def mset_insertBy)

lemma sorted_wrt_insertBy:
  assumes c: "\<And>a b. cmp a b \<le> 0 \<longleftrightarrow> R a b"
    and t: "\<And>a b. R a b \<or> R b a"
    and tr: "\<And>a b c. R a b \<Longrightarrow> R b c \<Longrightarrow> R a c"
    and s: "sorted_wrt R xs"
  shows "sorted_wrt R (insertBy cmp x xs)"
  using s
proof (induction xs)
  case Nil
  then show ?case by simp
next
  case (Cons y ys)
  show ?case
  proof (cases "cmp x y \<le> 0")
    case True
    then have xy: "R x y" using c by blast
    have "\<forall>z\<in>set ys. R x z"
      using Cons.prems xy tr by auto
    then show ?thesis using True xy Cons.prems by simp
  next
    case False
    then have yx: "R y x" using c t by blast
    have "sorted_wrt R (insertBy cmp x ys)"
      using Cons by simp
    moreover have "\<forall>z\<in>set (insertBy cmp x ys). R y z"
      using Cons.prems yx by (simp add: set_insertBy)
    ultimately show ?thesis using False by simp
  qed
qed

lemma sorted_wrt_arraySort:
  assumes "\<And>a b. cmp a b \<le> 0 \<longleftrightarrow> R a b"
    and "\<And>a b. R a b \<or> R b a"
    and "\<And>a b c. R a b \<Longrightarrow> R b c \<Longrightarrow> R a c"
  shows "sorted_wrt R (arraySort cmp xs)"
proof (induction xs)
  case Nil
  then show ?case by (simp add: arraySort_def)
next
  case (Cons x xs)
  have "arraySort cmp (x # xs) = insertBy cmp x (arraySort cmp xs)"
    by (simp add: arraySort_def)
  then show ?case
    using sorted_wrt_insertBy[of cmp R "arraySort cmp xs" x, OF assms Cons] by simp
qed


lemma compareDescending_le:
  "compareDescending P h a b \<le> 0 \<longleftrightarrow> sortKey P h b \<le> sortKey P h a"
  by (auto simp: compareDescending_def sortKey_def Let_def)


lemma sorted_rev_descending:
  "sorted (map (sortKey P h) (rev (arraySort (compareDescending P h) xs)))"
proof -
  have "sorted_wrt (\<lambda>a b. sortKey P h b \<le> sortKey P h a)
          (arraySort (compareDescending P h) xs)"
    by (rule sorted_wrt_arraySort) (auto simp: compareDescending_le)
  then show ?thesis by (simp add: sorted_map sorted_wrt_rev)
qed

subsection \<open>Copying blocks into the output buffer\<close>

lemma length_bufCopy: "length (bufCopy src target d) = length target"
  by (auto simp: bufCopy_def)

lemma bufCopy_fits:
  "d + length src \<le> length target \<Longrightarrow>
   bufCopy src target d = take d target @ src @ drop (d + length src) target"
proof (cases "d \<ge> length target")
  case True
  assume "d + length src \<le> length target"
  then have "length src = 0" and "d = length target" using True by linarith+
  then show ?thesis by (simp add: bufCopy_def)
next
  case False
  assume "d + length src \<le> length target"
  then show ?thesis using False by (simp add: bufCopy_def)
qed

lemma copyAll_fits:
  "d + length (concat blocks) \<le> length out \<Longrightarrow>
   copyAll blocks (out, d)
     = (take d out @ concat blocks @ drop (d + length (concat blocks)) out,
        d + length (concat blocks))"
proof (induction blocks arbitrary: out d)
  case Nil
  then show ?case by (simp add: copyAll_def)
next
  case (Cons b bs)
  let ?out1 = "bufCopy b out d"
  have fit: "d + length b \<le> length out" using Cons.prems by simp
  have o1: "?out1 = take d out @ b @ drop (d + length b) out"
    using fit by (rule bufCopy_fits)
  have step: "copyAll (b # bs) (out, d) = copyAll bs (?out1, d + length b)"
    by (simp add: copyAll_def)
  have pre: "(d + length b) + length (concat bs) \<le> length ?out1"
    using Cons.prems by (simp add: length_bufCopy)
  have t: "take (d + length b) ?out1 = take d out @ b"
    unfolding o1 using fit by simp
  have dr: "drop (d + length b + length (concat bs)) ?out1
      = drop (d + length b + length (concat bs)) out"
    unfolding o1 using fit by (simp add: add.commute add.left_commute)
  show ?case
    unfolding step Cons.IH[OF pre] t dr by (simp add: add.assoc)
qed

lemma length_le16: "length (le16 v) = 2"
  by (simp add: le16_def)

lemma length_le32: "length (le32 v) = 4"
  by (simp add: le32_def)

lemma length_mainToBinary: "length (mainToBinary mh) = mainHeaderSize mh"
  by (simp add: mainToBinary_def mainHeaderSize_def length_le16 length_le32 ENDHDR_def)

lemma length_endRegion: "length (endRegion mh com) = mainHeaderSize mh"
  by (simp add: endRegion_def length_bufCopy length_mainToBinary)

lemma endRegion_exact:
  "length com = mainCommentLength mh \<Longrightarrow>
   endRegion mh com = take ENDHDR (mainToBinary mh) @ com"
proof -
  assume l: "length com = mainCommentLength mh"
  have "ENDHDR + length com \<le> length (mainToBinary mh)"
    using l by (simp add: length_mainToBinary mainHeaderSize_def)
  then have "endRegion mh com
      = take ENDHDR (mainToBinary mh) @ com @ drop (ENDHDR + length com) (mainToBinary mh)"
    unfolding endRegion_def by (rule bufCopy_fits)
  moreover have "drop (ENDHDR + length com) (mainToBinary mh) = []"
    using l by (simp add: length_mainToBinary mainHeaderSize_def)
  ultimately show ?thesis by simp
qed

lemma finalize_layout:
  assumes d: "dindex v = length (concat (dataBlock v))"
    and t: "totalSize v = dindex v + length (concat (entryHeaders v))"
  shows "fst (finalize (v, c))
           = concat (dataBlock v) @ concat (entryHeaders v)
             @ endRegion ((mainHeader c)\<lparr>mainOffset := dindex v\<rparr>) (zipComment c)"
    and "snd (finalize (v, c)) = c\<lparr>mainHeader := (mainHeader c)\<lparr>mainOffset := dindex v\<rparr>\<rparr>"
proof -
  let ?D = "concat (dataBlock v)" and ?H = "concat (entryHeaders v)"
  let ?mh = "(mainHeader c)\<lparr>mainOffset := dindex v\<rparr>"
  let ?M = "mainHeaderSize (mainHeader c)"
  let ?out = "replicate (totalSize v + ?M) (0::byte)"
  have m: "mainHeaderSize ?mh = ?M" by (simp add: mainHeaderSize_def)
  have c1: "copyAll (dataBlock v) (?out, 0)
      = (?D @ drop (length ?D) ?out, length ?D)"
    using copyAll_fits[of 0 "dataBlock v" ?out] d t by simp
  let ?out1 = "?D @ drop (length ?D) ?out"
  have c2: "copyAll (entryHeaders v) (?out1, length ?D)
      = (?D @ ?H @ drop (length ?D + length ?H) ?out1, length ?D + length ?H)"
    using copyAll_fits[of "length ?D" "entryHeaders v" ?out1] d t by simp
  let ?out2 = "?D @ ?H @ drop (length ?D + length ?H) ?out1"
  have l2: "length ?out2 = length ?D + length ?H + ?M"
    using d t by simp
  have e: "length (endRegion ?mh (zipComment c)) = ?M"
    by (simp add: length_endRegion m)
  have "bufCopy (endRegion ?mh (zipComment c)) ?out2 (length ?D + length ?H)
      = take (length ?D + length ?H) ?out2 @ endRegion ?mh (zipComment c)
        @ drop (length ?D + length ?H + ?M) ?out2"
    using bufCopy_fits[of "length ?D + length ?H" "endRegion ?mh (zipComment c)" ?out2]
      l2 e by simp
  also have "\<dots> = ?D @ ?H @ endRegion ?mh (zipComment c)"
    using l2 by simp
  finally have b: "bufCopy (endRegion ?mh (zipComment c)) ?out2 (length ?D + length ?H)
      = ?D @ ?H @ endRegion ?mh (zipComment c)" .
  show "fst (finalize (v, c)) = ?D @ ?H @ endRegion ?mh (zipComment c)"
    unfolding finalize_def Let_def fst_conv snd_conv
    using c1 c2 b by (simp add: endRegion_def)
  show "snd (finalize (v, c)) = c\<lparr>mainHeader := ?mh\<rparr>"
    by (simp add: finalize_def Let_def)
qed

lemma replicate_16: "replicate 16 (0::byte) = [0, 0, 0, 0, 0, 0, 0, 0, 0, 0, 0, 0, 0, 0, 0, 0]"
  by (simp add: numeral_eq_Suc)

subsection \<open>The blocks accumulated by a serialization\<close>

lemma length_concat_triples:
  "length (concat (concat (map (\<lambda>(dh, ph, cd, eh). [dh, ph, cd]) bs)))
     = length (dataSection bs)"
  by (induction bs) (auto simp: dataSection_def)

lemma concat_triples:
  "concat (concat (map (\<lambda>(dh, ph, cd, eh). [dh, ph, cd]) bs)) = dataSection bs"
  by (induction bs) (auto simp: dataSection_def)

lemma concat_headers:
  "concat (map (\<lambda>(dh, ph, cd, eh). eh) bs) = centralDirectory bs"
  by (simp add: centralDirectory_def)

text \<open>
  A loop whose body hands each entry to its capability and then to \<open>pushEntry\<close>
  accumulates the blocks of \<open>entryBlocks\<close>; of the container it changes the entry
  objects and \<open>mainHeader.size\<close> only.
\<close>

lemma fold_blocks:
  assumes step: "\<And>r v c. f r (v, c) =
      pushEntry r (post (heap c r) (snd (cap (heap c r)))) (fst (cap (heap c r)))
        (v, c\<lparr>heap := (heap c)(r := snd (cap (heap c r)))\<rparr>)"
  shows "\<exists>h'. fold f rs (v, c) =
     (v\<lparr>dindex := dindex v + length (dataSection (entryBlocks cap post (heap c) (dindex v) rs)),
        dataBlock := dataBlock v
          @ concat (map (\<lambda>(dh, ph, cd, eh). [dh, ph, cd])
              (entryBlocks cap post (heap c) (dindex v) rs)),
        entryHeaders := entryHeaders v
          @ map (\<lambda>(dh, ph, cd, eh). eh) (entryBlocks cap post (heap c) (dindex v) rs),
        totalSize := totalSize v
          + (length (dataSection (entryBlocks cap post (heap c) (dindex v) rs))
             + length (centralDirectory (entryBlocks cap post (heap c) (dindex v) rs)))\<rparr>,
      c\<lparr>heap := h',
        mainHeader := (mainHeader c)
          \<lparr>mainSize := mainSize (mainHeader c)
             + length (centralDirectory (entryBlocks cap post (heap c) (dindex v) rs))\<rparr>\<rparr>)"
proof (induction rs arbitrary: v c)
  case Nil
  have "c = c\<lparr>heap := heap c, mainHeader := (mainHeader c)\<lparr>mainSize := mainSize (mainHeader c)\<rparr>\<rparr>"
    by simp
  then show ?case
    by (auto simp: dataSection_def centralDirectory_def intro!: exI[of _ "heap c"])
next
  case (Cons r rs)
  define e where "e = heap c r"
  define e' where "e' = snd (cap e)"
  define cd where "cd = fst (cap e)"
  define e1 where "e1 = e'\<lparr>header := (header e')\<lparr>offset := dindex v\<rparr>\<rparr>"
  define dh where "dh = dataHeaderToBinary (header e1)"
  define ph where "ph = post e e'"
  define eh where "eh = packHeader e1"
  define dl where "dl = length dh + length ph + length cd"
  define v1 where "v1 = v\<lparr>dindex := dindex v + dl,
      dataBlock := dataBlock v @ [dh, ph, cd],
      entryHeaders := entryHeaders v @ [eh],
      totalSize := totalSize v + (dl + length eh)\<rparr>"
  define c1 where "c1 = c\<lparr>heap := (heap c)(r := e1),
      mainHeader := (mainHeader c)\<lparr>mainSize := mainSize (mainHeader c) + length eh\<rparr>\<rparr>"
  have s: "f r (v, c) = (v1, c1)"
    unfolding step pushEntry_def Let_def v1_def c1_def dl_def eh_def ph_def dh_def e1_def
      cd_def e'_def e_def
    by simp
  have b: "entryBlocks cap post (heap c) (dindex v) (r # rs)
      = (dh, ph, cd, eh) # entryBlocks cap post (heap c1) (dindex v1) rs"
    unfolding v1_def c1_def dl_def eh_def ph_def dh_def e1_def cd_def e'_def e_def
    by (simp add: Let_def)
  let ?bs = "entryBlocks cap post (heap c1) (dindex v1) rs"
  from Cons.IH[of v1 c1] obtain h' where
    ih: "fold f rs (v1, c1) =
     (v1\<lparr>dindex := dindex v1 + length (dataSection ?bs),
        dataBlock := dataBlock v1 @ concat (map (\<lambda>(dh, ph, cd, eh). [dh, ph, cd]) ?bs),
        entryHeaders := entryHeaders v1 @ map (\<lambda>(dh, ph, cd, eh). eh) ?bs,
        totalSize := totalSize v1
          + (length (dataSection ?bs) + length (centralDirectory ?bs))\<rparr>,
      c1\<lparr>heap := h',
        mainHeader := (mainHeader c1)
          \<lparr>mainSize := mainSize (mainHeader c1) + length (centralDirectory ?bs)\<rparr>\<rparr>)"
    by blast
  have "fold f (r # rs) (v, c) = fold f rs (v1, c1)"
    using s by simp
  then show ?case
    unfolding b ih
    by (intro exI[of _ h'])
       (simp add: v1_def c1_def dataSection_def centralDirectory_def dl_def add.assoc)
qed

lemma syncEntry_step:
  "syncEntry P r (v, c) =
     pushEntry r ((\<lambda>e e'. syncPostHeader P e') (heap c r) (snd (getCompressedData P (heap c r))))
       (fst (getCompressedData P (heap c r)))
       (v, c\<lparr>heap := (heap c)(r := snd (getCompressedData P (heap c r)))\<rparr>)"
  by (simp add: syncEntry_def Let_def)

lemma pushEntry_entryList:
  "entryList (snd (pushEntry r ph cd (v, c))) = entryList c"
  by (simp add: pushEntry_def Let_def)

subsection \<open>compressToBuffer\<close>


lemma syncOrder_mset: "mset (syncOrder P c) = mset (entryList c)"
  by (simp add: syncOrder_def mset_arraySort)


lemma length_allocFill: "length (allocFill n pat) = n"
proof (cases "pat = []")
  case True
  then show ?thesis by (simp add: allocFill_def)
next
  case False
  then have "length pat \<ge> 1" by (cases pat) simp_all
  then have "n * 1 \<le> n * length pat" by (rule mult_le_mono2)
  then have "n \<le> length (concat (replicate n pat))"
    by (simp add: length_concat sum_list_replicate)
  then show ?thesis using False by (simp add: allocFill_def)
qed

lemma syncPostHeader_eq:
  "syncPostHeader P e
     = rawEntryName e @ allocFill (length (toStr P (extra e))) (utf8 P (toStr P (extra e)))"
proof -
  let ?n = "length (rawEntryName e)" and ?x = "length (toStr P (extra e))"
  have "bufCopy (rawEntryName e) (replicate (?n + ?x) 0) 0
      = rawEntryName e @ replicate ?x 0"
    using bufCopy_fits[of 0 "rawEntryName e" "replicate (?n + ?x) 0"] by simp
  then show ?thesis
    by (simp add: syncPostHeader_def Let_def bufFill_def)
qed

lemma syncBlocks_code:
  "syncBlocks P h rs
     = entryBlocks (getCompressedData P) (\<lambda>e e'. syncPostHeader P e') h 0 rs"
  by (simp add: syncBlocks_def postHeaderBytes_def syncPostHeader_eq)

lemma compressToBuffer_result:
  fixes P c
  defines "bs \<equiv> syncBlocks P (heap c) (syncOrder P c)"
  defines "mh \<equiv> (mainHeader c)\<lparr>mainSize := length (centralDirectory bs),
                    mainOffset := length (dataSection bs)\<rparr>"
  shows "fst (compressToBuffer P c)
           = dataSection bs @ centralDirectory bs @ endRegion mh (zipComment c)"
    and "entryList (snd (compressToBuffer P c)) = syncOrder P c"
    and "mainHeader (snd (compressToBuffer P c)) = mh"
    and "entryTable (snd (compressToBuffer P c)) = entryTable c"
    and "zipComment (snd (compressToBuffer P c)) = zipComment c"
    and "inBuffer (snd (compressToBuffer P c)) = inBuffer c"
proof -
  define c2 where "c2 = c\<lparr>entryList := syncOrder P c,
      mainHeader := (mainHeader c)\<lparr>mainSize := 0, mainOffset := 0\<rparr>\<rparr>"
  have ctb: "compressToBuffer P c = finalize (fold (syncEntry P) (syncOrder P c) (initLocals, c2))"
    by (simp add: compressToBuffer_def c2_def syncOrder_def Let_def)
  have bs: "bs = entryBlocks (getCompressedData P) (\<lambda>e e'. syncPostHeader P e') (heap c2)
      (dindex initLocals) (syncOrder P c)"
    by (simp add: bs_def syncBlocks_code c2_def initLocals_def)
  from fold_blocks[of "syncEntry P" "\<lambda>e e'. syncPostHeader P e'" "getCompressedData P"
      "syncOrder P c" initLocals c2, OF syncEntry_step]
  obtain h' where f: "fold (syncEntry P) (syncOrder P c) (initLocals, c2) =
     (initLocals\<lparr>dindex := dindex initLocals + length (dataSection bs),
        dataBlock := dataBlock initLocals
          @ concat (map (\<lambda>(dh, ph, cd, eh). [dh, ph, cd]) bs),
        entryHeaders := entryHeaders initLocals @ map (\<lambda>(dh, ph, cd, eh). eh) bs,
        totalSize := totalSize initLocals
          + (length (dataSection bs) + length (centralDirectory bs))\<rparr>,
      c2\<lparr>heap := h',
        mainHeader := (mainHeader c2)
          \<lparr>mainSize := mainSize (mainHeader c2) + length (centralDirectory bs)\<rparr>\<rparr>)"
    unfolding bs by blast
  define v' where "v' = initLocals\<lparr>dindex := dindex initLocals + length (dataSection bs),
        dataBlock := dataBlock initLocals
          @ concat (map (\<lambda>(dh, ph, cd, eh). [dh, ph, cd]) bs),
        entryHeaders := entryHeaders initLocals @ map (\<lambda>(dh, ph, cd, eh). eh) bs,
        totalSize := totalSize initLocals
          + (length (dataSection bs) + length (centralDirectory bs))\<rparr>"
  define c' where "c' = c2\<lparr>heap := h',
        mainHeader := (mainHeader c2)
          \<lparr>mainSize := mainSize (mainHeader c2) + length (centralDirectory bs)\<rparr>\<rparr>"
  have r: "compressToBuffer P c = finalize (v', c')"
    unfolding ctb f v'_def c'_def ..
  have d: "dindex v' = length (concat (dataBlock v'))"
    by (simp add: v'_def initLocals_def concat_triples)
  have t: "totalSize v' = dindex v' + length (concat (entryHeaders v'))"
    by (simp add: v'_def initLocals_def concat_headers)
  have m: "(mainHeader c')\<lparr>mainOffset := dindex v'\<rparr> = mh"
    by (simp add: c'_def c2_def v'_def mh_def initLocals_def)
  show "fst (compressToBuffer P c)
           = dataSection bs @ centralDirectory bs @ endRegion mh (zipComment c)"
    unfolding r finalize_layout(1)[OF d t] m
    by (simp add: v'_def c'_def c2_def initLocals_def concat_triples concat_headers)
  have s: "snd (compressToBuffer P c) = c'\<lparr>mainHeader := mh\<rparr>"
    unfolding r finalize_layout(2)[OF d t] m ..
  show "entryList (snd (compressToBuffer P c)) = syncOrder P c"
    unfolding s by (simp add: c'_def c2_def)
  show "mainHeader (snd (compressToBuffer P c)) = mh"
    unfolding s by simp
  show "entryTable (snd (compressToBuffer P c)) = entryTable c"
    unfolding s by (simp add: c'_def c2_def)
  show "zipComment (snd (compressToBuffer P c)) = zipComment c"
    unfolding s by (simp add: c'_def c2_def)
  show "inBuffer (snd (compressToBuffer P c)) = inBuffer c"
    unfolding s by (simp add: c'_def c2_def)
qed

lemma length_dataHeaderToBinary: "length (dataHeaderToBinary h) = LOCHDR"
  by (simp add: dataHeaderToBinary_def length_le16 length_le32 LOCHDR_def)

lemma length_entryHeaderToBinary: "length (entryHeaderToBinary h) = CENHDR"
  by (simp add: entryHeaderToBinary_def length_le16 length_le32 CENHDR_def)

lemma length_packHeader:
  "length (packHeader e)
     = CENHDR + length (rawEntryName e) + length (extra e) + length (entryComment e)"
  by (simp add: packHeader_def length_entryHeaderToBinary)







subsection \<open>toAsyncBuffer\<close>

text \<open>
  Every call of \<open>compress\<close> ends at its first statement, with the TypeError; the state is
  as it was.
\<close>

lemma compress_throws: "compress P (evs, v, c) = (Some TYPE_ERROR, evs, v, c)"
  by (simp add: compress.simps argumentsCallee_def)

text \<open>
  So \<open>toAsyncBuffer\<close> sorts the list, resets \<open>mainHeader.size\<close> and \<open>mainHeader.offset\<close>,
  and ends with the TypeError; it invokes no callback.
\<close>

lemma toAsyncBuffer_throws:
  "toAsyncBuffer P c
     = ([], Some TYPE_ERROR,
        c\<lparr>entryList := (if length (entryList c) > 1
                          then arraySort (compareDescending P (heap c)) (entryList c)
                          else entryList c),
          mainHeader := (mainHeader c)\<lparr>mainSize := 0, mainOffset := 0\<rparr>\<rparr>)"
  by (simp add: toAsyncBuffer_def compress_throws Let_def)

text \<open>
  C3: both serializations leave the entry collection intact. \<open>compressToBuffer\<close> returns
  with the same entries in \<open>entryList\<close>, each as often as before (it sorts the list in
  place), with the table and the shared archive buffer \<open>inBuffer\<close> as they were; what it
  writes is the buffer that it returns. \<open>toAsyncBuffer\<close> does not return a buffer (it
  ends with the TypeError of \<open>compress\<close>); the list, sorted in place, the table and
  \<open>inBuffer\<close> are then intact in the same way.
\<close>

theorem serialization_keeps_entries:
  "mset (entryList (snd (compressToBuffer P c))) = mset (entryList c) \<and>
   length (entryList (snd (compressToBuffer P c))) = length (entryList c) \<and>
   entryTable (snd (compressToBuffer P c)) = entryTable c \<and>
   inBuffer (snd (compressToBuffer P c)) = inBuffer c \<and>
   mset (entryList (snd (snd (toAsyncBuffer P c)))) = mset (entryList c) \<and>
   length (entryList (snd (snd (toAsyncBuffer P c)))) = length (entryList c) \<and>
   entryTable (snd (snd (toAsyncBuffer P c))) = entryTable c \<and>
   inBuffer (snd (snd (toAsyncBuffer P c))) = inBuffer c"
proof -
  have 1: "mset (entryList (snd (compressToBuffer P c))) = mset (entryList c)"
    unfolding compressToBuffer_result(2) by (rule syncOrder_mset)
  from 1 have 2: "length (entryList (snd (compressToBuffer P c))) = length (entryList c)"
    by (rule mset_eq_length)
  have 3: "entryTable (snd (compressToBuffer P c)) = entryTable c"
    by (rule compressToBuffer_result(4))
  have 4: "inBuffer (snd (compressToBuffer P c)) = inBuffer c"
    by (rule compressToBuffer_result(6))
  have 5: "mset (entryList (snd (snd (toAsyncBuffer P c)))) = mset (entryList c)"
    unfolding toAsyncBuffer_throws by (simp add: mset_arraySort)
  from 5 have 6: "length (entryList (snd (snd (toAsyncBuffer P c)))) = length (entryList c)"
    by (rule mset_eq_length)
  have 7: "entryTable (snd (snd (toAsyncBuffer P c))) = entryTable c"
    unfolding toAsyncBuffer_throws by simp
  have 8: "inBuffer (snd (snd (toAsyncBuffer P c))) = inBuffer c"
    unfolding toAsyncBuffer_throws by simp
  from 1 2 3 4 5 6 7 8 show ?thesis by blast
qed

text \<open>
  C4: on a container without entries \<open>toAsyncBuffer\<close> invokes no callback at all;
  \<open>onSuccess\<close> never sees a buffer: the call ends with the TypeError of \<open>compress\<close>.
  (\<open>compressToBuffer\<close> returns the end record.)
\<close>

theorem toAsyncBuffer_no_entries:
  "fst (toAsyncBuffer (asciiPlatform noPayload) noEntries) = [] \<and>
   successes (fst (toAsyncBuffer (asciiPlatform noPayload) noEntries)) = [] \<and>
   length (fst (compressToBuffer (asciiPlatform noPayload) noEntries)) = 22 \<and>
   fst (snd (toAsyncBuffer (asciiPlatform noPayload) noEntries)) = Some TYPE_ERROR"
proof -
  let ?P = "asciiPlatform noPayload"
  have e: "entryList noEntries = []" by (simp add: noEntries_def)
  have 1: "fst (toAsyncBuffer ?P noEntries) = []"
    unfolding toAsyncBuffer_throws by simp
  have s: "syncOrder ?P noEntries = []" by (simp add: syncOrder_def e)
  have 3: "length (fst (compressToBuffer ?P noEntries)) = 22"
    unfolding compressToBuffer_result(1) s
    by (simp add: syncBlocks_def dataSection_def centralDirectory_def length_endRegion
        mainHeaderSize_def ENDHDR_def noEntries_def)
  have 4: "fst (snd (toAsyncBuffer ?P noEntries)) = Some TYPE_ERROR"
    unfolding toAsyncBuffer_throws by simp
  from 1 3 4 show ?thesis by simp
qed

lemma twoFiles_syncOrder: "syncOrder (asciiPlatform noPayload) twoFiles = [1, 0]"
  by (simp add: syncOrder_def twoFiles_def arraySort_def compareAscending_def asciiPlatform_def
      mkEntry_def js_def asciiLower_def Let_def)

lemma twoFiles_descending:
  "arraySort (compareDescending (asciiPlatform noPayload) (heap twoFiles)) [0, 1] = [0, 1]"
  by (simp add: twoFiles_def arraySort_def compareDescending_def asciiPlatform_def
      mkEntry_def js_def asciiLower_def Let_def)

text \<open>
  C9: on \<open>twoFiles\<close>, \<open>toAsyncBuffer\<close> sorts the list (descending, which is the order
  \<open>b\<close>, \<open>a\<close> that it has) and ends with the TypeError of \<open>compress\<close>, before
  \<open>onItemStart\<close>: it constructs no bytes for any entry and hands no buffer to
  \<open>onSuccess\<close>. \<open>compressToBuffer\<close> constructs the two blocks, for \<open>a\<close> and then \<open>b\<close>, and
  returns the archive of 178 bytes.
\<close>

theorem toAsyncBuffer_builds_nothing:
  "toAsyncBuffer (asciiPlatform noPayload) twoFiles = ([], Some TYPE_ERROR, twoFiles) \<and>
   successes (fst (toAsyncBuffer (asciiPlatform noPayload) twoFiles)) = [] \<and>
   entryList (snd (compressToBuffer (asciiPlatform noPayload) twoFiles)) = [1, 0] \<and>
   length (syncBlocks (asciiPlatform noPayload) (heap twoFiles) [1, 0]) = 2 \<and>
   fst (compressToBuffer (asciiPlatform noPayload) twoFiles)
     = dataSection (syncBlocks (asciiPlatform noPayload) (heap twoFiles) [1, 0])
       @ centralDirectory (syncBlocks (asciiPlatform noPayload) (heap twoFiles) [1, 0])
       @ endRegion \<lparr>diskEntries = 2, totalEntries = 2, mainSize = 94, mainOffset = 62,
           mainCommentLength = 0\<rparr> [] \<and>
   length (fst (compressToBuffer (asciiPlatform noPayload) twoFiles)) = 178"
proof -
  let ?P = "asciiPlatform noPayload"
  let ?bs = "syncBlocks ?P (heap twoFiles) [1, 0]"
  have l: "entryList twoFiles = [0, 1]" by (simp add: twoFiles_def)
  have "twoFiles\<lparr>entryList := [0, 1],
      mainHeader := (mainHeader twoFiles)\<lparr>mainSize := 0, mainOffset := 0\<rparr>\<rparr> = twoFiles"
    by (simp add: twoFiles_def)
  then have 1: "toAsyncBuffer ?P twoFiles = ([], Some TYPE_ERROR, twoFiles)"
    unfolding toAsyncBuffer_throws l twoFiles_descending by simp
  then have 2: "successes (fst (toAsyncBuffer ?P twoFiles)) = []"
    by simp
  have 3: "entryList (snd (compressToBuffer ?P twoFiles)) = [1, 0]"
    unfolding compressToBuffer_result(2) by (rule twoFiles_syncOrder)
  have 4: "length ?bs = 2"
    by (simp add: syncBlocks_def Let_def)
  have d: "length (dataSection ?bs) = 62"
    by (simp add: syncBlocks_def postHeaderBytes_def dataSection_def Let_def
        length_dataHeaderToBinary length_allocFill LOCHDR_def asciiPlatform_def noPayload_def
        twoFiles_def mkEntry_def bytes_def)
  have h: "length (centralDirectory ?bs) = 94"
    by (simp add: syncBlocks_def centralDirectory_def Let_def length_packHeader CENHDR_def
        asciiPlatform_def noPayload_def twoFiles_def mkEntry_def bytes_def)
  have m: "(mainHeader twoFiles)\<lparr>mainSize := 94, mainOffset := 62\<rparr>
      = \<lparr>diskEntries = 2, totalEntries = 2, mainSize = 94, mainOffset = 62,
         mainCommentLength = 0\<rparr>"
    by (simp add: twoFiles_def)
  have z: "zipComment twoFiles = []" by (simp add: twoFiles_def)
  have 5: "fst (compressToBuffer ?P twoFiles)
     = dataSection ?bs @ centralDirectory ?bs
       @ endRegion \<lparr>diskEntries = 2, totalEntries = 2, mainSize = 94, mainOffset = 62,
           mainCommentLength = 0\<rparr> []"
    unfolding compressToBuffer_result(1) twoFiles_syncOrder d h m z ..
  have 6: "length (fst (compressToBuffer ?P twoFiles)) = 178"
    unfolding 5 using d h by (simp add: length_endRegion mainHeaderSize_def ENDHDR_def)
  from 1 2 3 4 5 6 show ?thesis by blast
qed

subsection \<open>Reading back what the codec wrote\<close>

lemma unat_of_nat_byte: "unat (of_nat v :: byte) = v mod 256"
  by (simp add: unat_of_nat)

lemma le16_value:
  assumes "v < 65536"
  shows "v mod 256 + 256 * (v div 256 mod 256) = (v::nat)"
proof -
  have "v div 256 < 256" using assms by (simp add: div_less_iff_less_mult)
  then have "v div 256 mod 256 = v div 256" by simp
  then show ?thesis by simp
qed

lemma le32_value:
  assumes "v < 4294967296"
  shows "v mod 256 + 256 * (v div 256 mod 256) + 65536 * (v div 65536 mod 256)
         + 16777216 * (v div 16777216 mod 256) = (v::nat)"
proof -
  have a: "v div 16777216 < 256" using assms by (simp add: div_less_iff_less_mult)
  have d2: "v div 65536 = v div 256 div 256" by (simp add: div_mult2_eq[symmetric])
  have d3: "v div 16777216 = v div 65536 div 256" by (simp add: div_mult2_eq[symmetric])
  have 1: "v = v mod 256 + 256 * (v div 256)" by simp
  have 2: "v div 256 = v div 256 mod 256 + 256 * (v div 65536)" unfolding d2 by simp
  have 3: "v div 65536 = v div 65536 mod 256 + 256 * (v div 16777216)" unfolding d3 by simp
  have 4: "v div 16777216 mod 256 = v div 16777216" using a by simp
  have "v = v mod 256 + 256 * (v div 256 mod 256 + 256 * (v div 65536 mod 256
              + 256 * (v div 16777216)))"
    using 1 2 3 by presburger
  then show ?thesis unfolding 4 by simp
qed

lemma le32_value_top:
  assumes "v < 4294967296"
  shows "v mod 256 + 256 * (v div 256 mod 256) + 65536 * (v div 65536 mod 256)
         + 16777216 * (v div 16777216) = (v::nat)"
proof -
  have "v div 16777216 < 256" using assms by (simp add: div_less_iff_less_mult)
  then have m: "v div 16777216 mod 256 = v div 16777216" by simp
  show ?thesis using le32_value[OF assms] unfolding m .
qed

lemma readUInt16LE_le16:
  assumes "v < 65536" and "i = length pre"
  shows "readUInt16LE (pre @ le16 v @ post) i = Some v"
  using le16_value[OF assms(1)] assms(2)
  by (simp add: readUInt16LE_def le16_def nth_append unat_of_nat_byte)

lemma readUInt32LE_le32:
  assumes "v < 4294967296" and "i = length pre"
  shows "readUInt32LE (pre @ le32 v @ post) i = Some v"
  using le32_value[OF assms(1)] le32_value_top[OF assms(1)] assms(2)
  by (simp add: readUInt32LE_def le32_def nth_append unat_of_nat_byte)

lemma readUInt16LE_range: "readUInt16LE buf i = Some v \<Longrightarrow> v < 65536"
proof -
  assume a: "readUInt16LE buf i = Some v"
  have "unat (buf ! i) < 256" "unat (buf ! (i + 1)) < 256"
    using unsigned_less[of "buf ! i", where ?'a = nat]
      unsigned_less[of "buf ! (i + 1)", where ?'a = nat] by simp_all
  then show ?thesis using a by (auto simp: readUInt16LE_def split: if_splits)
qed

lemma readUInt32LE_range: "readUInt32LE buf i = Some v \<Longrightarrow> v < 4294967296"
proof -
  assume a: "readUInt32LE buf i = Some v"
  have "unat (buf ! i) < 256" "unat (buf ! (i + 1)) < 256"
    "unat (buf ! (i + 2)) < 256" "unat (buf ! (i + 3)) < 256"
    using unsigned_less[of "buf ! i", where ?'a = nat]
      unsigned_less[of "buf ! (i + 1)", where ?'a = nat]
      unsigned_less[of "buf ! (i + 2)", where ?'a = nat]
      unsigned_less[of "buf ! (i + 3)", where ?'a = nat] by simp_all
  then show ?thesis using a by (auto simp: readUInt32LE_def split: if_splits)
qed

lemma mainLoad_mainToBinary:
  assumes "diskEntries mh < 65536" "totalEntries mh < 65536" "mainSize mh < 4294967296"
    "mainOffset mh < 4294967296" "mainCommentLength mh < 65536"
  shows "mainLoadFromBinary (take ENDHDR (mainToBinary mh)) = Some mh"
proof -
  let ?pre2 = "le32 ENDSIG @ [0, 0, 0, 0]"
  let ?pre3 = "?pre2 @ le16 (diskEntries mh)"
  let ?pre4 = "?pre3 @ le16 (totalEntries mh)"
  let ?pre5 = "?pre4 @ le32 (mainSize mh)"
  let ?pre6 = "?pre5 @ le32 (mainOffset mh)"
  let ?b = "take ENDHDR (mainToBinary mh)"
  have b: "?b = ?pre6 @ le16 (mainCommentLength mh)"
    by (simp add: mainToBinary_def ENDHDR_def length_le16 length_le32)
  have 1: "readUInt16LE ?b ENDSUB = Some (diskEntries mh)"
    unfolding b
    using readUInt16LE_le16[OF assms(1), of ENDSUB ?pre2
        "le16 (totalEntries mh) @ le32 (mainSize mh) @ le32 (mainOffset mh)
         @ le16 (mainCommentLength mh)"]
    by (simp add: ENDSUB_def length_le32)
  have 2: "readUInt16LE ?b ENDTOT = Some (totalEntries mh)"
    unfolding b
    using readUInt16LE_le16[OF assms(2), of ENDTOT ?pre3
        "le32 (mainSize mh) @ le32 (mainOffset mh) @ le16 (mainCommentLength mh)"]
    by (simp add: ENDTOT_def length_le32 length_le16)
  have 3: "readUInt32LE ?b ENDSIZ = Some (mainSize mh)"
    unfolding b
    using readUInt32LE_le32[OF assms(3), of ENDSIZ ?pre4
        "le32 (mainOffset mh) @ le16 (mainCommentLength mh)"]
    by (simp add: ENDSIZ_def length_le32 length_le16)
  have 4: "readUInt32LE ?b ENDOFF = Some (mainOffset mh)"
    unfolding b
    using readUInt32LE_le32[OF assms(4), of ENDOFF ?pre5 "le16 (mainCommentLength mh)"]
    by (simp add: ENDOFF_def length_le32 length_le16)
  have 5: "readUInt16LE ?b ENDCOM = Some (mainCommentLength mh)"
    unfolding b
    using readUInt16LE_le16[OF assms(5), of ENDCOM ?pre6 "[]"]
    by (simp add: ENDCOM_def length_le32 length_le16)
  show ?thesis
    unfolding mainLoadFromBinary_def 1 2 3 4 5 by simp
qed

lemma entryLoad_entryHeaderToBinary:
  assumes r: "fieldsInRange h"
  shows "entryLoadFromBinary (entryHeaderToBinary h) = Some h"
proof -
  let ?p1 = "le32 CENSIG"
  let ?p2 = "?p1 @ le16 (made h)"
  let ?p3 = "?p2 @ le16 (version h)"
  let ?p4 = "?p3 @ le16 (flags h)"
  let ?p5 = "?p4 @ le16 (how h)"
  let ?p6 = "?p5 @ le32 (mtime h)"
  let ?p7 = "?p6 @ le32 (crc h)"
  let ?p8 = "?p7 @ le32 (compressedSize h)"
  let ?p9 = "?p8 @ le32 (usize h)"
  let ?p10 = "?p9 @ le16 (fileNameLength h)"
  let ?p11 = "?p10 @ le16 (extraLength h)"
  let ?p12 = "?p11 @ le16 (commentLength h)"
  let ?p13 = "?p12 @ le16 (diskNumStart h)"
  let ?p14 = "?p13 @ le16 (inAttr h)"
  let ?p15 = "?p14 @ le32 (attr h)"
  let ?b = "entryHeaderToBinary h"
  note l = length_le16 length_le32
  have f: "made h < 65536" "version h < 65536" "flags h < 65536" "how h < 65536"
    "mtime h < 4294967296" "crc h < 4294967296" "compressedSize h < 4294967296"
    "usize h < 4294967296" "fileNameLength h < 65536" "extraLength h < 65536"
    "commentLength h < 65536" "diskNumStart h < 65536" "inAttr h < 65536"
    "attr h < 4294967296" "offset h < 4294967296"
    using r by (simp_all add: fieldsInRange_def)
  have 1: "readUInt16LE ?b CENVEM = Some (made h)"
    using readUInt16LE_le16[OF f(1), of CENVEM ?p1 "drop 6 ?b"]
    by (simp add: entryHeaderToBinary_def CENVEM_def l)
  have 2: "readUInt16LE ?b CENVER = Some (version h)"
    using readUInt16LE_le16[OF f(2), of CENVER ?p2 "drop 8 ?b"]
    by (simp add: entryHeaderToBinary_def CENVER_def l)
  have 3: "readUInt16LE ?b CENFLG = Some (flags h)"
    using readUInt16LE_le16[OF f(3), of CENFLG ?p3 "drop 10 ?b"]
    by (simp add: entryHeaderToBinary_def CENFLG_def l)
  have 4: "readUInt16LE ?b CENHOW = Some (how h)"
    using readUInt16LE_le16[OF f(4), of CENHOW ?p4 "drop 12 ?b"]
    by (simp add: entryHeaderToBinary_def CENHOW_def l)
  have 5: "readUInt32LE ?b CENTIM = Some (mtime h)"
    using readUInt32LE_le32[OF f(5), of CENTIM ?p5 "drop 16 ?b"]
    by (simp add: entryHeaderToBinary_def CENTIM_def l)
  have 6: "readUInt32LE ?b CENCRC = Some (crc h)"
    using readUInt32LE_le32[OF f(6), of CENCRC ?p6 "drop 20 ?b"]
    by (simp add: entryHeaderToBinary_def CENCRC_def l)
  have 7: "readUInt32LE ?b CENSIZ = Some (compressedSize h)"
    using readUInt32LE_le32[OF f(7), of CENSIZ ?p7 "drop 24 ?b"]
    by (simp add: entryHeaderToBinary_def CENSIZ_def l)
  have 8: "readUInt32LE ?b CENLEN = Some (usize h)"
    using readUInt32LE_le32[OF f(8), of CENLEN ?p8 "drop 28 ?b"]
    by (simp add: entryHeaderToBinary_def CENLEN_def l)
  have 9: "readUInt16LE ?b CENNAM = Some (fileNameLength h)"
    using readUInt16LE_le16[OF f(9), of CENNAM ?p9 "drop 30 ?b"]
    by (simp add: entryHeaderToBinary_def CENNAM_def l)
  have 10: "readUInt16LE ?b CENEXT = Some (extraLength h)"
    using readUInt16LE_le16[OF f(10), of CENEXT ?p10 "drop 32 ?b"]
    by (simp add: entryHeaderToBinary_def CENEXT_def l)
  have 11: "readUInt16LE ?b CENCOM = Some (commentLength h)"
    using readUInt16LE_le16[OF f(11), of CENCOM ?p11 "drop 34 ?b"]
    by (simp add: entryHeaderToBinary_def CENCOM_def l)
  have 12: "readUInt16LE ?b CENDSK = Some (diskNumStart h)"
    using readUInt16LE_le16[OF f(12), of CENDSK ?p12 "drop 36 ?b"]
    by (simp add: entryHeaderToBinary_def CENDSK_def l)
  have 13: "readUInt16LE ?b CENATT = Some (inAttr h)"
    using readUInt16LE_le16[OF f(13), of CENATT ?p13 "drop 38 ?b"]
    by (simp add: entryHeaderToBinary_def CENATT_def l)
  have 14: "readUInt32LE ?b CENATX = Some (attr h)"
    using readUInt32LE_le32[OF f(14), of CENATX ?p14 "drop 42 ?b"]
    by (simp add: entryHeaderToBinary_def CENATX_def l)
  have 15: "readUInt32LE ?b CENOFF = Some (offset h)"
    using readUInt32LE_le32[OF f(15), of CENOFF ?p15 "[]"]
    by (simp add: entryHeaderToBinary_def CENOFF_def l)
  show ?thesis
    unfolding entryLoadFromBinary_def 1 2 3 4 5 6 7 8 9 10 11 12 13 14 15 by simp
qed

lemma entryLoad_fieldsInRange:
  "entryLoadFromBinary data = Some h \<Longrightarrow> fieldsInRange h"
  unfolding entryLoadFromBinary_def fieldsInRange_def
  by (auto split: option.splits dest: readUInt16LE_range readUInt32LE_range)

lemma mainLoad_range:
  "mainLoadFromBinary data = Some mh \<Longrightarrow>
   diskEntries mh < 65536 \<and> totalEntries mh < 65536 \<and> mainSize mh < 4294967296 \<and>
   mainOffset mh < 4294967296 \<and> mainCommentLength mh < 65536"
  unfolding mainLoadFromBinary_def
  by (auto split: option.splits dest: readUInt16LE_range readUInt32LE_range)

subsection \<open>Reading back a central directory\<close>

lemma buf_slice_middle:
  "i = length pre \<Longrightarrow> j = length pre + length x \<Longrightarrow> buf_slice (pre @ x @ post) i j = x"
  by (simp add: buf_slice_def)

lemma readEntry_packed:
  assumes c: "complete e" and r: "fieldsInRange (header e)" and s: "parsedShape P e"
    and i: "i = length pre"
  shows "readEntry P (pre @ packHeader e @ post) i = Inr e"
proof -
  let ?h = "entryHeaderToBinary (header e)"
  let ?buf = "pre @ packHeader e @ post"
  have l: "length (rawEntryName e) = fileNameLength (header e)"
    "length (extra e) = extraLength (header e)"
    "length (entryComment e) = commentLength (header e)"
    using c by (simp_all add: complete_def)
  have b: "?buf = pre @ ?h @ (rawEntryName e @ extra e @ entryComment e @ post)"
    by (simp add: packHeader_def)
  have 1: "buf_slice ?buf i (i + CENHDR) = ?h"
    unfolding b by (rule buf_slice_middle) (simp_all add: i length_entryHeaderToBinary)
  have b2: "?buf = (pre @ ?h) @ rawEntryName e @ (extra e @ entryComment e @ post)"
    by (simp add: packHeader_def)
  have 2: "buf_slice ?buf (i + CENHDR) (i + CENHDR + fileNameLength (header e))
      = rawEntryName e"
    unfolding b2 by (rule buf_slice_middle) (simp_all add: i length_entryHeaderToBinary l)
  have b3: "?buf = (pre @ ?h @ rawEntryName e) @ extra e @ (entryComment e @ post)"
    by (simp add: packHeader_def)
  have 3: "buf_slice ?buf (i + CENHDR + fileNameLength (header e))
      (i + CENHDR + fileNameLength (header e) + extraLength (header e)) = extra e"
    unfolding b3 by (rule buf_slice_middle) (simp_all add: i length_entryHeaderToBinary l)
  have b4: "?buf = (pre @ ?h @ rawEntryName e @ extra e) @ entryComment e @ post"
    by (simp add: packHeader_def)
  have 4: "buf_slice ?buf
      (i + CENHDR + fileNameLength (header e) + extraLength (header e))
      (i + CENHDR + fileNameLength (header e) + extraLength (header e)
        + commentLength (header e)) = entryComment e"
    unfolding b4 by (rule buf_slice_middle) (simp_all add: i length_entryHeaderToBinary l)
  have x0: "extraLength (header e) = 0 \<Longrightarrow> extra e = []"
    using l(2) by simp
  have c0: "commentLength (header e) = 0 \<Longrightarrow> entryComment e = []"
    using l(3) by simp
  have n: "entryName e = toStr P (rawEntryName e)"
    "isDirectory e = nameIsDirectory (toStr P (rawEntryName e))"
    using s by (simp_all add: parsedShape_def)
  have "readEntry P ?buf i
      = Inr \<lparr>header = header e, entryName = toStr P (rawEntryName e),
             rawEntryName = rawEntryName e, extra = extra e,
             entryComment = entryComment e,
             isDirectory = nameIsDirectory (toStr P (rawEntryName e))\<rparr>"
    unfolding readEntry_def Let_def 1 entryLoad_entryHeaderToBinary[OF r]
    using 3 4 x0 c0 by (auto simp: newZipEntry_def 2)
  also have "\<dots> = Inr e" using n by simp
  finally show ?thesis .
qed

lemma readEntriesLoop_packed:
  assumes "\<forall>e\<in>set es. complete e \<and> fieldsInRange (header e) \<and> parsedShape P e"
    and "i = length pre"
  shows "readEntriesLoop P (pre @ concat (map packHeader es) @ post) (length es) i = Inr es"
  using assms
proof (induction es arbitrary: pre i)
  case Nil
  then show ?case by simp
next
  case (Cons e es)
  have e: "complete e" "fieldsInRange (header e)" "parsedShape P e"
    using Cons.prems(1) by simp_all
  let ?post = "concat (map packHeader es) @ post"
  have b: "pre @ concat (map packHeader (e # es)) @ post = pre @ packHeader e @ ?post"
    by simp
  have 1: "readEntry P (pre @ packHeader e @ ?post) i = Inr e"
    using e Cons.prems(2) by (rule readEntry_packed)
  have n: "i + entryHeaderSize (header e) = length (pre @ packHeader e)"
    using e(1) Cons.prems(2)
    by (simp add: entryHeaderSize_def length_packHeader complete_def)
  have b2: "pre @ packHeader e @ ?post = (pre @ packHeader e) @ ?post"
    by simp
  have 2: "readEntriesLoop P (pre @ packHeader e @ ?post) (length es)
      (i + entryHeaderSize (header e)) = Inr es"
    unfolding b2 using Cons.prems(1) n by (intro Cons.IH) simp_all
  show ?case
    unfolding b using 1 2 by simp
qed

lemma readEntry_shape:
  "readEntry P buf i = Inr e \<Longrightarrow> fieldsInRange (header e) \<and> parsedShape P e"
  by (auto simp: readEntry_def Let_def parsedShape_def split: option.splits
      dest: entryLoad_fieldsInRange)

lemma readEntriesLoop_shape:
  "readEntriesLoop P buf n i = Inr es \<Longrightarrow>
   length es = n \<and> (\<forall>e\<in>set es. fieldsInRange (header e) \<and> parsedShape P e)"
proof (induction n arbitrary: i es)
  case 0
  then show ?case by simp
next
  case (Suc n)
  from Suc.prems obtain e es' where
    e: "readEntry P buf i = Inr e"
    and es': "readEntriesLoop P buf n (i + entryHeaderSize (header e)) = Inr es'"
    and es: "es = e # es'"
    by (auto split: sum.splits)
  show ?case
    using Suc.IH[OF es'] readEntry_shape[OF e] es by simp
qed

text \<open>What a successful open leaves in the container.\<close>

lemma zipFile_Inr:
  assumes "zipFile P b = Inr c"
  shows "\<exists>es. length es = diskEntries (mainHeader c) \<and>
           (\<forall>e\<in>set es. fieldsInRange (header e) \<and> parsedShape P e) \<and>
           heap c = (\<lambda>r. if r < length es then es ! r else newZipEntry) \<and>
           entryList c = [0..<length es]"
    and "diskEntries (mainHeader c) < 65536 \<and> totalEntries (mainHeader c) < 65536 \<and>
         mainSize (mainHeader c) < 4294967296 \<and> mainOffset (mainHeader c) < 4294967296 \<and>
         mainCommentLength (mainHeader c) < 65536"
proof -
  from assms obtain p mh es where
    mh: "mainLoadFromBinary (buf_slice b p (p + ENDHDR)) = Some mh"
    and es: "readEntriesLoop P b (diskEntries mh) (mainOffset mh) = Inr es"
    and c: "c = \<lparr>heap = (\<lambda>r. if r < length es then es ! r else newZipEntry),
              entryList = [0..<length es],
              entryTable = fold (\<lambda>r t. t(entryName (es ! r) \<mapsto> r)) [0..<length es] Map.empty,
              zipComment = (if mainCommentLength mh \<noteq> 0 then drop (p + ENDHDR) b else []),
              inBuffer = b, mainHeader = mh\<rparr>"
    by (auto simp: zipFile_def readMainHeader_def loadAt_def readEntries_def
        split: sum.splits if_splits option.splits)
  have m: "mainHeader c = mh" using c by simp
  show "\<exists>es. length es = diskEntries (mainHeader c) \<and>
           (\<forall>e\<in>set es. fieldsInRange (header e) \<and> parsedShape P e) \<and>
           heap c = (\<lambda>r. if r < length es then es ! r else newZipEntry) \<and>
           entryList c = [0..<length es]"
    using readEntriesLoop_shape[OF es] c by (intro exI[of _ es]) simp
  show "diskEntries (mainHeader c) < 65536 \<and> totalEntries (mainHeader c) < 65536 \<and>
         mainSize (mainHeader c) < 4294967296 \<and> mainOffset (mainHeader c) < 4294967296 \<and>
         mainCommentLength (mainHeader c) < 65536"
    unfolding m using mh by (rule mainLoad_range)
qed

subsection \<open>The round trip\<close>

text \<open>
  With a capability that leaves the entries as they are, and every entry object once in
  the list, the central-directory headers are the packed entries with their new offsets,
  which lie inside the data section.
\<close>

lemma entryBlocks_headers:
  assumes id: "\<forall>e. snd (cap e) = e" and "distinct rs"
  shows "\<exists>ds. length ds = length rs \<and>
      (\<forall>d\<in>set ds. d \<le> d0 + length (dataSection (entryBlocks cap post h d0 rs))) \<and>
      map (\<lambda>(dh, ph, cd, eh). eh) (entryBlocks cap post h d0 rs)
        = map (\<lambda>(r, d). packHeader (withOffset (h r) d)) (zip rs ds)"
  using assms(2)
proof (induction rs arbitrary: h d0)
  case Nil
  then show ?case by simp
next
  case (Cons r rs)
  define e1 where "e1 = withOffset (h r) d0"
  define dl where "dl = length (dataHeaderToBinary (header e1)) + length (post (h r) (h r))
      + length (fst (cap (h r)))"
  let ?bs' = "entryBlocks cap post (h(r := e1)) (d0 + dl) rs"
  have b: "entryBlocks cap post h d0 (r # rs)
      = (dataHeaderToBinary (header e1), post (h r) (h r), fst (cap (h r)), packHeader e1)
        # ?bs'"
    using id by (simp add: Let_def e1_def dl_def withOffset_def)
  have d: "distinct rs" and nr: "r \<notin> set rs" using Cons.prems by simp_all
  from Cons.IH[OF d, where h = "h(r := e1)" and ?d0.0 = "d0 + dl"] obtain ds where
    l: "length ds = length rs"
    and bd: "\<forall>d\<in>set ds. d \<le> d0 + dl + length (dataSection ?bs')"
    and m: "map (\<lambda>(dh, ph, cd, eh). eh) ?bs'
        = map (\<lambda>(r', d). packHeader (withOffset ((h(r := e1)) r') d)) (zip rs ds)"
    by blast
  have m': "map (\<lambda>(r', d). packHeader (withOffset ((h(r := e1)) r') d)) (zip rs ds)
      = map (\<lambda>(r', d). packHeader (withOffset (h r') d)) (zip rs ds)"
  proof (rule map_cong[OF refl])
    fix x assume "x \<in> set (zip rs ds)"
    then have "(fst x, snd x) \<in> set (zip rs ds)" by simp
    then have "fst x \<in> set rs" by (rule set_zip_leftD)
    then have "fst x \<noteq> r" using nr by auto
    then show "(case x of (r', d) \<Rightarrow> packHeader (withOffset ((h(r := e1)) r') d))
        = (case x of (r', d) \<Rightarrow> packHeader (withOffset (h r') d))"
      by (cases x) simp
  qed
  have ds: "length (dataSection (entryBlocks cap post h d0 (r # rs)))
      = dl + length (dataSection ?bs')"
    unfolding b by (simp add: dataSection_def dl_def)
  show ?case
    unfolding b
    using l bd m m' ds[unfolded b]
    by (intro exI[of _ "d0 # ds"]) (auto simp: e1_def)
qed

lemma take_bufCopy: "n \<le> d \<Longrightarrow> take n (bufCopy src target d) = take n target"
  by (simp add: bufCopy_def)

lemma sigAt_endRegion: "sigAt (endRegion mh com) 0"
proof -
  have "take 4 (endRegion mh com) = take 4 (mainToBinary mh)"
    unfolding endRegion_def by (rule take_bufCopy) (simp add: ENDHDR_def)
  also have "\<dots> = [0x50, 0x4B, 0x05, 0x06]"
    by (simp add: mainToBinary_def le32_def ENDSIG_def)
  finally show ?thesis by (simp add: sigAt_def)
qed

lemma endRegion_sigOffsets:
  assumes "mainCommentLength mh < 65536"
  shows "0 \<in> set (sigOffsets (endRegion mh com))"
proof -
  have "length (endRegion mh com) = ENDHDR + mainCommentLength mh"
    by (simp add: length_endRegion mainHeaderSize_def)
  then have "0 \<in> set (window (endRegion mh com))"
    using assms unfolding window_def by (auto simp: ENDHDR_def max_def)
  then show ?thesis
    using sigAt_endRegion[of mh com] by (simp add: sigOffsets_def)
qed

text \<open>
  Opening a buffer that is laid out as an archive: anything, then the packed
  central-directory headers of complete entries, then an end-record region that holds
  the signature at no later offset of its window, with an end record that counts the
  entries and points to the first header.
\<close>

lemma zipFile_layout:
  assumes ok: "\<forall>e\<in>set es. complete e \<and> fieldsInRange (header e) \<and> parsedShape P e"
    and mr: "diskEntries mh < 65536" "totalEntries mh < 65536" "mainSize mh < 4294967296"
      "mainOffset mh < 4294967296" "mainCommentLength mh < 65536"
    and n: "diskEntries mh = length es"
    and off: "mainOffset mh = length pre"
    and un: "last (sigOffsets (endRegion mh com)) = 0"
    and sm: "length pre + length (concat (map packHeader es)) < 4294967295"
  shows "zipFile P (pre @ concat (map packHeader es) @ endRegion mh com)
     = Inr (containerOf es
         (if mainCommentLength mh \<noteq> 0 then drop ENDHDR (endRegion mh com) else [])
         (pre @ concat (map packHeader es) @ endRegion mh com) mh)"
proof -
  let ?H = "concat (map packHeader es)"
  let ?E = "endRegion mh com"
  let ?out = "pre @ ?H @ ?E"
  let ?p = "length pre + length ?H"
  have ne: "sigOffsets ?E \<noteq> []"
    using endRegion_sigOffsets[OF mr(5), of com] by auto
  have "findEndOffset ((pre @ ?H) @ ?E) = Inr (int (length (pre @ ?H) + last (sigOffsets ?E)))"
    using ne by (rule findEndOffset_tail)
  then have fe: "findEndOffset ?out = Inr (int ?p)"
    unfolding un by simp
  have nb: "bitNot (int ?p) \<noteq> 0"
    using sm by (intro bitNot_offset) simp_all
  have zf: "zipFile P ?out = loadAt P ?out ?p"
    unfolding zipFile_def readMainHeader_def fe using nb by (simp add: nat_int_add)
  have sl: "buf_slice ?out ?p (?p + ENDHDR) = take ENDHDR (mainToBinary mh)"
  proof -
    have "buf_slice ?out ?p (?p + ENDHDR) = take ENDHDR ?E"
      by (simp add: buf_slice_def)
    also have "\<dots> = take ENDHDR (mainToBinary mh)"
      unfolding endRegion_def by (rule take_bufCopy) simp
    finally show ?thesis .
  qed
  have ml: "mainLoadFromBinary (take ENDHDR (mainToBinary mh)) = Some mh"
    using mr by (rule mainLoad_mainToBinary)
  have rl: "readEntriesLoop P ?out (diskEntries mh) (mainOffset mh) = Inr es"
    unfolding n off using ok by (intro readEntriesLoop_packed) simp_all
  have dr: "drop (?p + ENDHDR) ?out = drop ENDHDR ?E"
    by simp
  show ?thesis
    unfolding zf loadAt_def sl ml readEntries_def
    using rl dr by (simp add: containerOf_def)
qed

lemma map_fst_zip_info:
  "length ds = length rs \<Longrightarrow>
   map (\<lambda>(r, d). entryInfo (withOffset (h r) d)) (zip rs ds) = map (\<lambda>r. entryInfo (h r)) rs"
  by (induction rs ds rule: list_induct2') (simp_all add: entryInfo_def withOffset_def)

lemma entryInfos_containerOf:
  "entryInfos (containerOf es com input mh) = mset (map entryInfo es)"
proof -
  have "map (\<lambda>r. entryInfo (heap (containerOf es com input mh) r))
          (entryList (containerOf es com input mh)) = map entryInfo es"
    by (rule nth_equalityI) (simp_all add: containerOf_def)
  then show ?thesis by (simp add: entryInfos_def)
qed

text \<open>
  C1, amended: for an archive that opens, whose entries are complete (the central
  directory lies inside the buffer), with a capability that leaves the entries it is
  asked for as they are, opening the buffer, serializing it and opening the result
  gives the same names, sizes and CRC-32 values, up to the order of the entries,
  provided the rebuilt buffer is shorter than 4 GiB and its end-record region (the end
  record with the comment) holds the signature at no later offset of its window than
  its start.
\<close>

theorem open_serialize_open:
  assumes op: "zipFile P b = Inr c"
    and co: "\<forall>r\<in>set (entryList c). complete (heap c r)"
    and id: "\<forall>e. snd (getCompressedData P e) = e"
    and sm: "length (fst (compressToBuffer P c)) < 4294967296"
    and un: "last (sigOffsets (endRegion (mainHeader (snd (compressToBuffer P c)))
               (zipComment c))) = 0"
  shows "\<exists>c'. zipFile P (fst (compressToBuffer P c)) = Inr c' \<and> entryInfos c' = entryInfos c"
proof -
  from zipFile_Inr(1)[OF op] obtain es where
    n: "length es = diskEntries (mainHeader c)"
    and sh: "\<forall>e\<in>set es. fieldsInRange (header e) \<and> parsedShape P e"
    and hp: "heap c = (\<lambda>r. if r < length es then es ! r else newZipEntry)"
    and el: "entryList c = [0..<length es]"
    by blast
  note mr = zipFile_Inr(2)[OF op]
  let ?rs = "syncOrder P c"
  let ?bs = "syncBlocks P (heap c) ?rs"
  let ?D = "dataSection ?bs" and ?H = "centralDirectory ?bs"
  let ?mh = "(mainHeader c)\<lparr>mainSize := length ?H, mainOffset := length ?D\<rparr>"
  let ?E = "endRegion ?mh (zipComment c)"
  let ?out = "fst (compressToBuffer P c)"
  have out: "?out = ?D @ ?H @ ?E" by (rule compressToBuffer_result(1))
  have mh: "mainHeader (snd (compressToBuffer P c)) = ?mh" by (rule compressToBuffer_result(3))
  have lE: "length ?E = ENDHDR + mainCommentLength (mainHeader c)"
    by (simp add: length_endRegion mainHeaderSize_def)
  have lout: "length ?out = length ?D + length ?H + (ENDHDR + mainCommentLength (mainHeader c))"
    unfolding out using lE by simp
  have D32: "length ?D < 4294967296" and H32: "length ?H < 4294967296"
    using sm lout by simp_all
  have ms: "mset ?rs = mset [0..<length es]"
    using syncOrder_mset[of P c] el by simp
  have dist: "distinct ?rs"
    using mset_eq_imp_distinct_iff[OF ms] by simp
  have srs: "set ?rs = {0..<length es}"
    using mset_eq_setD[OF ms] by simp
  from entryBlocks_headers[OF id dist, of 0 "\<lambda>e e'. postHeaderBytes P e'" "heap c"]
  obtain ds where
    lds: "length ds = length ?rs"
    and bd: "\<forall>d\<in>set ds. d \<le> length ?D"
    and hd: "map (\<lambda>(dh, ph, cd, eh). eh) ?bs
        = map (\<lambda>(r, d). packHeader (withOffset (heap c r) d)) (zip ?rs ds)"
    unfolding syncBlocks_def by auto
  define es1 where "es1 = map (\<lambda>(r, d). withOffset (heap c r) d) (zip ?rs ds)"
  have H: "?H = concat (map packHeader es1)"
    unfolding centralDirectory_def hd es1_def by (simp add: comp_def case_prod_unfold)
  have les1: "length es1 = length es"
    unfolding es1_def using lds size_mset[of ?rs] ms by simp
  have ok: "\<forall>e\<in>set es1. complete e \<and> fieldsInRange (header e) \<and> parsedShape P e"
  proof
    fix e assume "e \<in> set es1"
    then obtain r d where rd: "(r, d) \<in> set (zip ?rs ds)" and e: "e = withOffset (heap c r) d"
      unfolding es1_def by auto
    have r: "r \<in> set ?rs" and d: "d \<in> set ds"
      using rd by (auto dest: set_zip_leftD set_zip_rightD)
    have rl: "r < length es" using r srs by simp
    then have hr: "heap c r = es ! r" by (simp add: hp)
    have "es ! r \<in> set es" using rl by simp
    then have s: "fieldsInRange (header (heap c r))" "parsedShape P (heap c r)"
      using sh hr by simp_all
    have "r \<in> set (entryList c)" using rl el by simp
    then have cm: "complete (heap c r)" using co by blast
    have "d < 4294967296" using bd d D32 by fastforce
    then have "fieldsInRange (header e)"
      using s(1) by (simp add: e withOffset_def fieldsInRange_def)
    moreover have "complete e" using cm by (simp add: e withOffset_def complete_def)
    moreover have "parsedShape P e" using s(2) by (simp add: e withOffset_def parsedShape_def)
    ultimately show "complete e \<and> fieldsInRange (header e) \<and> parsedShape P e" by blast
  qed
  have p32: "length ?D + length (concat (map packHeader es1)) < 4294967295"
    using sm lout unfolding H by (simp add: ENDHDR_def)
  have z: "zipFile P (?D @ concat (map packHeader es1) @ ?E)
     = Inr (containerOf es1
         (if mainCommentLength ?mh \<noteq> 0 then drop ENDHDR ?E else [])
         (?D @ concat (map packHeader es1) @ ?E) ?mh)"
    using ok mr D32 H32 n les1 un[unfolded mh] p32
    by (intro zipFile_layout) simp_all
  have "mset (map entryInfo es1)
      = mset (map (\<lambda>(r, d). entryInfo (withOffset (heap c r) d)) (zip ?rs ds))"
    unfolding es1_def by (simp add: comp_def case_prod_unfold)
  also have "\<dots> = mset (map (\<lambda>r. entryInfo (heap c r)) ?rs)"
    using lds by (simp add: map_fst_zip_info)
  also have "\<dots> = image_mset (\<lambda>r. entryInfo (heap c r)) (mset ?rs)"
    by simp
  also have "\<dots> = entryInfos c"
    unfolding syncOrder_mset by (simp add: entryInfos_def)
  finally have "mset (map entryInfo es1) = entryInfos c" .
  then show ?thesis
    using z unfolding out H by (auto simp: entryInfos_containerOf)
qed

subsection \<open>Archives of one stored file\<close>

lemma ucast_byte_code_unit:
  "(ucast (of_nat (of_char x) :: byte) :: 16 word) = of_nat (of_char x)"
proof -
  have "(of_char x :: nat) mod 256 < 256" by (rule mod_less_divisor) simp
  then have "(of_char x :: nat) < 2 ^ 8" by (simp only: of_char_mod_256) simp
  then have "take_bit 8 (of_char x :: nat) = of_char x"
    by (rule take_bit_nat_eq_self)
  then show ?thesis by (simp add: unsigned_of_nat)
qed

lemma ucast_bytes: "map ucast (bytes n) = js n"
  by (simp add: js_def bytes_def ucast_byte_code_unit)

lemma zeroFile_complete: "complete (zeroFile n c)"
  by (simp add: complete_def zeroFile_def bytes_def)

lemma zeroFile_parsedShape: "parsedShape (asciiPlatform f) (zeroFile n c)"
proof -
  have "toStr (asciiPlatform f) (rawEntryName (zeroFile n c)) = js ''a''"
    by (simp add: asciiPlatform_def zeroFile_def ucast_bytes)
  moreover have "\<not> nameIsDirectory (js ''a'')"
    by (simp add: nameIsDirectory_def js_def)
  ultimately show ?thesis
    by (simp add: parsedShape_def zeroFile_def)
qed

lemma zeroFile_fieldsInRange:
  "n < 4294967296 \<Longrightarrow> c < 4294967296 \<Longrightarrow> fieldsInRange (header (zeroFile n c))"
  by (simp add: fieldsInRange_def zeroFile_def)

lemma length_localPart_zeroFile:
  "length (localPart (zeroFile n c) lx) = 31 + length lx + n"
  by (simp add: localPart_def length_dataHeaderToBinary LOCHDR_def storedPayload_def
      zeroFile_def bytes_def)

lemma length_packHeader_zeroFile: "length (packHeader (withOffset (zeroFile n c) d)) = 47"
  by (simp add: length_packHeader CENHDR_def withOffset_def zeroFile_def bytes_def)

lemma withOffset_zeroFile: "withOffset (zeroFile n c) 0 = zeroFile n c"
  by (simp add: withOffset_def zeroFile_def)

lemma header_offset_zeroFile: "(header (zeroFile n c))\<lparr>offset := 0\<rparr> = header (zeroFile n c)"
  by (simp add: zeroFile_def)

lemma drop_endRegion_exact:
  "length com = mainCommentLength mh \<Longrightarrow> drop ENDHDR (endRegion mh com) = com"
proof -
  assume l: "length com = mainCommentLength mh"
  have "length (take ENDHDR (mainToBinary mh)) = ENDHDR"
    by (simp add: length_mainToBinary mainHeaderSize_def)
  then show ?thesis
    unfolding endRegion_exact[OF l] by simp
qed

lemma endRegion_no_comment:
  assumes "mainCommentLength mh = 0"
  shows "sigOffsets (endRegion mh com) = [0]"
proof -
  have "length (endRegion mh com) = ENDHDR"
    using assms by (simp add: length_endRegion mainHeaderSize_def)
  then have "window (endRegion mh com) = [0]"
    by (simp add: window_def ENDHDR_def)
  then show ?thesis
    using sigAt_endRegion[of mh com] by (simp add: sigOffsets_def)
qed

text \<open>Opening the archive of one stored file gives that file.\<close>

lemma open_storedArchive:
  assumes n: "n < 4294967296" "c < 4294967296"
    and lp: "78 + length lx + n < 4294967295"
    and lc: "length com < 65536"
    and un: "last (sigOffsets (endRegion (endOf (zeroFile n c) lx com) com)) = 0"
  shows "zipFile (asciiPlatform f) (storedArchive (zeroFile n c) lx com)
     = Inr (containerOf [zeroFile n c] com (storedArchive (zeroFile n c) lx com)
              (endOf (zeroFile n c) lx com))"
proof -
  let ?e = "zeroFile n c"
  let ?mh = "endOf ?e lx com"
  have ph: "length (packHeader ?e) = 47"
    using length_packHeader_zeroFile[of n c 0] by (simp add: withOffset_zeroFile)
  have ok: "\<forall>e\<in>set [?e]. complete e \<and> fieldsInRange (header e)
      \<and> parsedShape (asciiPlatform f) e"
    using n by (simp add: zeroFile_complete zeroFile_parsedShape zeroFile_fieldsInRange)
  have z: "zipFile (asciiPlatform f) (localPart ?e lx @ concat (map packHeader [?e])
        @ endRegion ?mh com)
     = Inr (containerOf [?e]
         (if mainCommentLength ?mh \<noteq> 0 then drop ENDHDR (endRegion ?mh com) else [])
         (localPart ?e lx @ concat (map packHeader [?e]) @ endRegion ?mh com) ?mh)"
    using ok un lp lc
    by (intro zipFile_layout) (simp_all add: endOf_def ph length_localPart_zeroFile)
  have cm: "(if mainCommentLength ?mh \<noteq> 0 then drop ENDHDR (endRegion ?mh com) else []) = com"
    using drop_endRegion_exact[of com ?mh] by (simp add: endOf_def)
  show ?thesis
    using z unfolding cm by (simp add: storedArchive_def)
qed

text \<open>What \<open>compressToBuffer\<close> builds from it: the local extra field is gone.\<close>

lemma rebuild_storedArchive:
  fixes n c lx com
  defines "C \<equiv> containerOf [zeroFile n c] com (storedArchive (zeroFile n c) lx com)
              (endOf (zeroFile n c) lx com)"
  defines "P \<equiv> asciiPlatform storedPayload"
  shows "\<exists>D. length D = 31 + n \<and>
           fst (compressToBuffer P C)
             = D @ packHeader (zeroFile n c)
               @ endRegion \<lparr>diskEntries = 1, totalEntries = 1, mainSize = 47,
                    mainOffset = 31 + n, mainCommentLength = length com\<rparr> com"
    and "mainHeader (snd (compressToBuffer P C))
           = \<lparr>diskEntries = 1, totalEntries = 1, mainSize = 47,
                mainOffset = 31 + n, mainCommentLength = length com\<rparr>"
proof -
  have so: "syncOrder P C = [0]"
    by (simp add: syncOrder_def C_def containerOf_def)
  have h0: "heap C 0 = zeroFile n c"
    by (simp add: C_def containerOf_def)
  define D where "D = dataSection (syncBlocks P (heap C) [0])"
  have bs: "syncBlocks P (heap C) [0]
      = [(dataHeaderToBinary (header (zeroFile n c)), postHeaderBytes P (zeroFile n c),
          storedPayload (zeroFile n c), packHeader (zeroFile n c))]"
    using withOffset_zeroFile[of n c]
    by (simp add: syncBlocks_def Let_def h0 P_def asciiPlatform_def withOffset_def
        header_offset_zeroFile)
  have lD: "length D = 31 + n"
    unfolding D_def bs
    by (simp add: dataSection_def length_dataHeaderToBinary LOCHDR_def postHeaderBytes_def
        length_allocFill storedPayload_def zeroFile_def bytes_def P_def asciiPlatform_def)
  have H: "centralDirectory (syncBlocks P (heap C) [0]) = packHeader (zeroFile n c)"
    unfolding bs by (simp add: centralDirectory_def)
  have lH: "length (packHeader (zeroFile n c)) = 47"
    using length_packHeader_zeroFile[of n c 0] by (simp add: withOffset_zeroFile)
  have mh: "(mainHeader C)\<lparr>mainSize := length (centralDirectory (syncBlocks P (heap C) [0])),
        mainOffset := length (dataSection (syncBlocks P (heap C) [0]))\<rparr>
      = \<lparr>diskEntries = 1, totalEntries = 1, mainSize = 47,
                mainOffset = 31 + n, mainCommentLength = length com\<rparr>"
    unfolding H lH D_def[symmetric] lD by (simp add: C_def containerOf_def endOf_def)
  have zc: "zipComment C = com" by (simp add: C_def containerOf_def)
  have "fst (compressToBuffer P C)
      = D @ packHeader (zeroFile n c)
        @ endRegion \<lparr>diskEntries = 1, totalEntries = 1, mainSize = 47,
             mainOffset = 31 + n, mainCommentLength = length com\<rparr> com"
    apply (simp only: compressToBuffer_result(1) so)
    apply (simp only: mh)
    apply (simp only: zc H D_def)
    done
  then show "\<exists>D. length D = 31 + n \<and>
           fst (compressToBuffer P C)
             = D @ packHeader (zeroFile n c)
               @ endRegion \<lparr>diskEntries = 1, totalEntries = 1, mainSize = 47,
                    mainOffset = 31 + n, mainCommentLength = length com\<rparr> com"
    using lD by blast
  show "mainHeader (snd (compressToBuffer P C))
           = \<lparr>diskEntries = 1, totalEntries = 1, mainSize = 47,
                mainOffset = 31 + n, mainCommentLength = length com\<rparr>"
    apply (simp only: compressToBuffer_result(3) so)
    apply (simp only: mh)
    done
qed

theorem open_serialize_open_witness:
  "zipFile (asciiPlatform storedPayload) smallArchive
     = Inr (containerOf [zeroFile 2 0x41d912ff] [] smallArchive
              (endOf (zeroFile 2 0x41d912ff) [] [])) \<and>
   map_sum id entryInfos
     (zipFile (asciiPlatform storedPayload)
        (fst (compressToBuffer (asciiPlatform storedPayload)
           (containerOf [zeroFile 2 0x41d912ff] [] smallArchive
              (endOf (zeroFile 2 0x41d912ff) [] [])))))
     = Inr {#(js ''a'', bytes ''a'', 2, 2, 0x41d912ff)#}"
proof -
  let ?P = "asciiPlatform storedPayload"
  let ?e = "zeroFile 2 0x41d912ff"
  let ?C = "containerOf [?e] [] smallArchive (endOf ?e [] [])"
  have u0: "last (sigOffsets (endRegion (endOf ?e [] []) [])) = 0"
    by (simp add: endRegion_no_comment endOf_def)
  have op: "zipFile ?P smallArchive = Inr ?C"
    unfolding smallArchive_def using u0 by (intro open_storedArchive) simp_all
  have co: "\<forall>r\<in>set (entryList ?C). complete (heap ?C r)"
    by (simp add: containerOf_def zeroFile_complete)
  have id: "\<forall>e. snd (getCompressedData ?P e) = e"
    by (simp add: asciiPlatform_def)
  from rebuild_storedArchive(1)[of 2 "0x41d912ff" "[]" "[]"] obtain D where
    lD: "length D = 31 + 2"
    and out: "fst (compressToBuffer ?P ?C)
       = D @ packHeader ?e
         @ endRegion \<lparr>diskEntries = 1, totalEntries = 1, mainSize = 47,
              mainOffset = 31 + 2, mainCommentLength = length ([]::buffer)\<rparr> []"
    unfolding smallArchive_def by blast
  have sm: "length (fst (compressToBuffer ?P ?C)) < 4294967296"
    unfolding out using lD length_packHeader_zeroFile[of 2 "0x41d912ff" 0]
    by (simp add: withOffset_zeroFile length_endRegion mainHeaderSize_def ENDHDR_def)
  have un: "last (sigOffsets (endRegion (mainHeader (snd (compressToBuffer ?P ?C)))
               (zipComment ?C))) = 0"
    using rebuild_storedArchive(2)[of 2 "0x41d912ff" "[]" "[]"]
    unfolding smallArchive_def by (simp add: endRegion_no_comment)
  from open_serialize_open[OF op co id sm un] obtain c' where
    z: "zipFile ?P (fst (compressToBuffer ?P ?C)) = Inr c'"
    and i: "entryInfos c' = entryInfos ?C"
    by blast
  have "entryInfos ?C = {#(js ''a'', bytes ''a'', 2, 2, 0x41d912ff)#}"
    by (simp add: entryInfos_containerOf entryInfo_def zeroFile_def)
  then show ?thesis
    using op z i by simp
qed

lemma buf_slice_append_right:
  "i = length pre + i' \<Longrightarrow> j = length pre + j' \<Longrightarrow> buf_slice (pre @ x) i j = buf_slice x i' j'"
  by (simp add: buf_slice_def)

lemma endRegion_0x06054b54:
  "endRegion \<lparr>diskEntries = 1, totalEntries = 1, mainSize = 47, mainOffset = 101010260,
      mainCommentLength = 16\<rparr> (replicate 16 0)
   = [0x50, 0x4B, 5, 6, 0, 0, 0, 0, 1, 0, 1, 0, 47, 0, 0, 0, 0x54, 0x4B, 5, 6, 16, 0,
      0, 0, 0, 0, 0, 0, 0, 0, 0, 0, 0, 0, 0, 0, 0, 0]"
  unfolding replicate_16
  by (simp add: endRegion_def bufCopy_def mainToBinary_def le16_def le32_def ENDSIG_def
      ENDHDR_def)

lemma endRegion_0x06054b50:
  "endRegion \<lparr>diskEntries = 1, totalEntries = 1, mainSize = 47, mainOffset = 101010256,
      mainCommentLength = 16\<rparr> (replicate 16 0)
   = [0x50, 0x4B, 5, 6, 0, 0, 0, 0, 1, 0, 1, 0, 47, 0, 0, 0, 0x50, 0x4B, 5, 6, 16, 0,
      0, 0, 0, 0, 0, 0, 0, 0, 0, 0, 0, 0, 0, 0, 0, 0]"
  unfolding replicate_16
  by (simp add: endRegion_def bufCopy_def mainToBinary_def le16_def le32_def ENDSIG_def
      ENDHDR_def)

text \<open>
  The claim C1 as it is stated fails for \<open>bigArchive\<close>, a well-formed archive of one
  stored file with complete entries. It opens; \<open>compressToBuffer\<close> rebuilds it without
  the local extra field, so that the central directory starts at \<open>0x06054b50\<close>, and
  these four bytes of the end record, 16 bytes into it, are the signature; with the
  comment of 16 bytes they are the first offset that the scan tests. Opening the rebuilt
  buffer takes the end record from there and finds no entries.
\<close>

theorem open_serialize_open_counterexample:
  "zipFile (asciiPlatform storedPayload) bigArchive
     = Inr (containerOf [zeroFile 101010225 0x13015e20] (replicate 16 0) bigArchive
              (endOf (zeroFile 101010225 0x13015e20) [0x99, 0x99, 0, 0] (replicate 16 0))) \<and>
   entryInfos (containerOf [zeroFile 101010225 0x13015e20] (replicate 16 0) bigArchive
              (endOf (zeroFile 101010225 0x13015e20) [0x99, 0x99, 0, 0] (replicate 16 0)))
     = {#(js ''a'', bytes ''a'', 101010225, 101010225, 0x13015e20)#} \<and>
   complete (zeroFile 101010225 0x13015e20) \<and>
   length (fst (compressToBuffer (asciiPlatform storedPayload)
           (containerOf [zeroFile 101010225 0x13015e20] (replicate 16 0) bigArchive
              (endOf (zeroFile 101010225 0x13015e20) [0x99, 0x99, 0, 0] (replicate 16 0)))))
     = 101010341 \<and>
   map_sum id entryInfos
     (zipFile (asciiPlatform storedPayload)
        (fst (compressToBuffer (asciiPlatform storedPayload)
           (containerOf [zeroFile 101010225 0x13015e20] (replicate 16 0) bigArchive
              (endOf (zeroFile 101010225 0x13015e20) [0x99, 0x99, 0, 0] (replicate 16 0))))))
     = Inr {#}"
proof -
  let ?P = "asciiPlatform storedPayload"
  let ?e = "zeroFile 101010225 0x13015e20"
  let ?lx = "[0x99, 0x99, 0, 0] :: buffer"
  let ?com = "replicate 16 0 :: buffer"
  let ?C = "containerOf [?e] ?com bigArchive (endOf ?e ?lx ?com)"
  let ?mh1 = "\<lparr>diskEntries = 1, totalEntries = 1, mainSize = 47, mainOffset = 101010260,
      mainCommentLength = 16\<rparr>"
  let ?mh2 = "\<lparr>diskEntries = 1, totalEntries = 1, mainSize = 47, mainOffset = 101010256,
      mainCommentLength = 16\<rparr>"
  let ?mh0 = "\<lparr>diskEntries = 0, totalEntries = 0, mainSize = 0, mainOffset = 0,
      mainCommentLength = 0\<rparr>"
  have ph: "length (packHeader ?e) = 47"
    using length_packHeader_zeroFile[of 101010225 "0x13015e20" 0]
    by (simp add: withOffset_zeroFile)
  have eo: "endOf ?e ?lx ?com = ?mh1"
    by (simp add: endOf_def ph length_localPart_zeroFile)
  have s1: "sigOffsets (endRegion ?mh1 (replicate 16 0)) = [0]"
    unfolding endRegion_0x06054b54 by code_simp
  have s2: "sigOffsets (endRegion ?mh2 (replicate 16 0)) = [0, 16]"
    unfolding endRegion_0x06054b50 by code_simp
  have ml: "mainLoadFromBinary (buf_slice (endRegion ?mh2 (replicate 16 0)) 16 (16 + ENDHDR))
      = Some ?mh0"
    unfolding endRegion_0x06054b50
    by (simp add: mainLoadFromBinary_def buf_slice_def readUInt16LE_def readUInt32LE_def
        ENDHDR_def ENDSUB_def ENDTOT_def ENDSIZ_def ENDOFF_def ENDCOM_def)
  have op: "zipFile ?P bigArchive = Inr ?C"
    unfolding bigArchive_def
  proof (intro open_storedArchive)
    show "last (sigOffsets (endRegion (endOf ?e ?lx ?com) ?com)) = 0"
      by (simp only: eo s1 last.simps refl if_True)
  qed simp_all
  have inf: "entryInfos ?C = {#(js ''a'', bytes ''a'', 101010225, 101010225, 0x13015e20)#}"
    by (simp add: entryInfos_containerOf entryInfo_def zeroFile_def)
  from rebuild_storedArchive(1)[where n = 101010225 and c = "0x13015e20" and lx = ?lx
      and com = ?com] obtain D where
    lD: "length D = 31 + 101010225"
    and out0: "fst (compressToBuffer ?P ?C)
       = D @ packHeader ?e
         @ endRegion \<lparr>diskEntries = 1, totalEntries = 1, mainSize = 47,
              mainOffset = 31 + 101010225, mainCommentLength = length ?com\<rparr> ?com"
    unfolding bigArchive_def by blast
  let ?E = "endRegion ?mh2 (replicate 16 0)"
  have out: "fst (compressToBuffer ?P ?C) = (D @ packHeader ?e) @ ?E"
    unfolding out0 by simp
  have lE: "length ?E = 38"
    by (simp add: length_endRegion mainHeaderSize_def ENDHDR_def)
  have len: "length (fst (compressToBuffer ?P ?C)) = 101010341"
    unfolding out using lD ph lE by simp
  have ne: "sigOffsets ?E \<noteq> []" unfolding s2 by simp
  have fe: "findEndOffset ((D @ packHeader ?e) @ ?E)
      = Inr (int (length (D @ packHeader ?e) + 16))"
    using findEndOffset_tail[OF ne, of "D @ packHeader ?e"] unfolding s2 by simp
  have nb: "bitNot (int (length (D @ packHeader ?e) + 16)) \<noteq> 0"
    using lD ph by (intro bitNot_offset) simp_all
  have zf: "zipFile ?P ((D @ packHeader ?e) @ ?E)
      = loadAt ?P ((D @ packHeader ?e) @ ?E) (length (D @ packHeader ?e) + 16)"
    unfolding zipFile_def readMainHeader_def fe using nb
    by (simp only: sum.case nat_int if_False)
  have sl: "buf_slice ((D @ packHeader ?e) @ ?E) (length (D @ packHeader ?e) + 16)
        (length (D @ packHeader ?e) + 16 + ENDHDR)
      = buf_slice ?E 16 (16 + ENDHDR)"
    by (rule buf_slice_append_right) simp_all
  have "map_sum id entryInfos
      (loadAt ?P ((D @ packHeader ?e) @ ?E) (length (D @ packHeader ?e) + 16)) = Inr {#}"
    unfolding loadAt_def sl ml
    by (simp add: readEntries_def entryInfos_def)
  then have re: "map_sum id entryInfos (zipFile ?P (fst (compressToBuffer ?P ?C))) = Inr {#}"
    unfolding out zf .
  from op inf zeroFile_complete[of 101010225 "0x13015e20"] len re
  show ?thesis by blast
qed

end
